theory Spec2Isabelle
  imports Main "HOL-Library.Word"
begin

section \<open>Collaborators of DictionaryReader.h\<close>

text \<open>
  \<^verbatim>\<open>src/Interpreters/DictionaryReader.h\<close> is the only source file. Everything it
  includes (data types, columns, blocks, the function framework) is a collaborator whose
  declaration is not among the source files. The collaborators are modelled below as small
  value types; the two dictionary functions \<^verbatim>\<open>dictHas\<close> and \<^verbatim>\<open>dictGet\<close> are parameters
  (a \<open>Context\<close> maps a function name to its overload resolver).
\<close>

subsection \<open>Data types and their type index\<close>

text \<open>
  Modelled from the spec: \<^verbatim>\<open>IDataType\<close>, its subclasses and \<^verbatim>\<open>TypeIndex\<close> (DataTypes/,
  Core/Types.h) are not among the source files. The spec speaks of uint8, uint16, uint64,
  string and nullable "semantic types"; the source names \<^verbatim>\<open>DataTypeUInt8\<close>,
  \<^verbatim>\<open>DataTypeUInt64\<close>, \<^verbatim>\<open>DataTypeString\<close> and \<^verbatim>\<open>DataTypeNullable\<close> with its nested type.
  The spec has no word on \<^verbatim>\<open>TypeIndex\<close>, through which alone the source compares types
  (\<^verbatim>\<open>getTypeId()\<close>). In the repository it is an enumeration with one value per kind of
  type: a type with a parameter shares its index with every type of its kind, which is
  why \<^verbatim>\<open>makeResultBlock\<close> strips a Nullable before its index is taken. Decimal32 with
  its scale stands here for the parametrised types a dictionary attribute can have.
\<close>

datatype TypeIndex =
  TI_UInt8 | TI_UInt16 | TI_UInt64 | TI_String | TI_Decimal32 | TI_Nullable

datatype data_type =
  DataTypeUInt8
| DataTypeUInt16
| DataTypeUInt64
| DataTypeString
| DataTypeDecimal32 nat
| DataTypeNullable data_type

fun getTypeId :: "data_type \<Rightarrow> TypeIndex" where
  "getTypeId DataTypeUInt8 = TI_UInt8"
| "getTypeId DataTypeUInt16 = TI_UInt16"
| "getTypeId DataTypeUInt64 = TI_UInt64"
| "getTypeId DataTypeString = TI_String"
| "getTypeId (DataTypeDecimal32 scale) = TI_Decimal32"
| "getTypeId (DataTypeNullable t) = TI_Nullable"

fun isNullable :: "data_type \<Rightarrow> bool" where
  "isNullable (DataTypeNullable t) = True"
| "isNullable t = False"

text \<open>
  \<^verbatim>\<open>typeid_cast<const DataTypeNullable &>(*column.type).getNestedType()\<close>. The source calls
  it only under \<^verbatim>\<open>isNullable()\<close>; on any other type the cast throws, which the guard
  excludes, so the second equation is never reached from \<open>makeResultBlock\<close>.
\<close>

fun getNestedType :: "data_type \<Rightarrow> data_type" where
  "getNestedType (DataTypeNullable t) = t"
| "getNestedType t = t"

subsection \<open>Columns\<close>

text \<open>
  Modelled from the spec: \<^verbatim>\<open>IColumn\<close> and its subclasses (Columns/ColumnVector.h,
  ColumnString.h, ColumnConst.h) are not among the source files. A column is a vector of
  UInt8, of UInt64, of Decimal32 or of strings, or a constant column (a size and one
  value). The spec's operations on it are "resize" (\<open>cloneResized\<close>: a copy of the given
  length, cut or padded with the default value) and the "standard boolean-mask filter"
  (\<open>filter_col\<close>: keep exactly the rows where the mask is nonzero, in order). The filter
  of the repository throws when mask and column differ in size.
\<close>

datatype Field = FieldUInt64 "64 word" | FieldString string

datatype IColumn =
  ColumnUInt8 "8 word list"
| ColumnUInt64 "64 word list"
| ColumnDecimal32 "32 word list"
| ColumnString "string list"
| ColumnConst nat Field

datatype error =
  NUMBER_OF_COLUMNS_DOESNT_MATCH string
| TYPE_MISMATCH string
| BAD_CAST
| SIZES_OF_COLUMNS_DOESNT_MATCH
| OUT_OF_BOUNDS
| NULL_POINTER
| Underlying string

text \<open>
  \<open>NUMBER_OF_COLUMNS_DOESNT_MATCH\<close> and \<open>TYPE_MISMATCH\<close> are the two exceptions the source
  throws itself, with their messages. \<open>BAD_CAST\<close> is \<^verbatim>\<open>typeid_cast\<close> on a reference of
  another class. \<open>OUT_OF_BOUNDS\<close> and \<open>NULL_POINTER\<close> stand for the undefined behaviour of
  \<^verbatim>\<open>Block::getByPosition\<close> (an unchecked vector index) at a position that is not in the
  block, and of dereferencing a null column pointer. \<open>Underlying\<close> is any exception of a
  collaborator (the function factory, a resolver, an executable function), which the
  source never catches.
\<close>

text \<open>
  Positions are \<^verbatim>\<open>size_t\<close>: 64 bits without a sign, and a sum wraps around.
\<close>

definition size_t_add :: "nat \<Rightarrow> nat \<Rightarrow> nat" where
  "size_t_add a b = (a + b) mod 2 ^ 64"

definition resize :: "'a list \<Rightarrow> nat \<Rightarrow> 'a \<Rightarrow> 'a list" where
  "resize xs n v = take n xs @ replicate (n - length xs) v"

fun size_col :: "IColumn \<Rightarrow> nat" where
  "size_col (ColumnUInt8 xs) = length xs"
| "size_col (ColumnUInt64 xs) = length xs"
| "size_col (ColumnDecimal32 xs) = length xs"
| "size_col (ColumnString xs) = length xs"
| "size_col (ColumnConst s v) = s"

fun cloneResized :: "IColumn \<Rightarrow> nat \<Rightarrow> IColumn" where
  "cloneResized (ColumnUInt8 xs) n = ColumnUInt8 (resize xs n 0)"
| "cloneResized (ColumnUInt64 xs) n = ColumnUInt64 (resize xs n 0)"
| "cloneResized (ColumnDecimal32 xs) n = ColumnDecimal32 (resize xs n 0)"
| "cloneResized (ColumnString xs) n = ColumnString (resize xs n [])"
| "cloneResized (ColumnConst s v) n = ColumnConst n v"

definition filter_rows :: "'a list \<Rightarrow> 8 word list \<Rightarrow> 'a list" where
  "filter_rows xs filt = map fst (filter (\<lambda>p. snd p \<noteq> 0) (zip xs filt))"

definition countBytesInFilter :: "8 word list \<Rightarrow> nat" where
  "countBytesInFilter filt = length (filter (\<lambda>b. b \<noteq> 0) filt)"

fun filter_col :: "IColumn \<Rightarrow> 8 word list \<Rightarrow> error + IColumn" where
  "filter_col (ColumnUInt8 xs) filt =
     (if length filt \<noteq> length xs then Inl SIZES_OF_COLUMNS_DOESNT_MATCH
      else Inr (ColumnUInt8 (filter_rows xs filt)))"
| "filter_col (ColumnUInt64 xs) filt =
     (if length filt \<noteq> length xs then Inl SIZES_OF_COLUMNS_DOESNT_MATCH
      else Inr (ColumnUInt64 (filter_rows xs filt)))"
| "filter_col (ColumnDecimal32 xs) filt =
     (if length filt \<noteq> length xs then Inl SIZES_OF_COLUMNS_DOESNT_MATCH
      else Inr (ColumnDecimal32 (filter_rows xs filt)))"
| "filter_col (ColumnString xs) filt =
     (if length filt \<noteq> length xs then Inl SIZES_OF_COLUMNS_DOESNT_MATCH
      else Inr (ColumnString (filter_rows xs filt)))"
| "filter_col (ColumnConst s v) filt =
     (if length filt \<noteq> s then Inl SIZES_OF_COLUMNS_DOESNT_MATCH
      else Inr (ColumnConst (countBytesInFilter filt) v))"

subsection \<open>Blocks\<close>

text \<open>
  Modelled from the spec: \<^verbatim>\<open>ColumnWithTypeAndName\<close> and \<^verbatim>\<open>Block\<close> (Core/Block.h) are not
  among the source files. The spec's "named, typed columns grouped into a row batch": a
  block is the ordered list of its columns, \<open>columns\<close> counts them, \<open>insert_col\<close> appends
  one, \<open>getByPosition\<close> indexes without a check, \<open>cloneEmpty\<close> keeps names and types and
  empties every column that is present. A column pointer may be null (\<open>None\<close>). The
  record has the representation of a column as a parameter: \<open>Block\<close> holds the columns
  themselves; the blocks of the last section hold pointers to column objects.
\<close>

record 'c ColumnWithTypeAndName =
  column :: "'c option"
  type :: data_type
  name :: string

type_synonym Block = "IColumn ColumnWithTypeAndName list"

definition columns :: "'c ColumnWithTypeAndName list \<Rightarrow> nat" where
  "columns block = length block"

definition insert_col ::
  "'c ColumnWithTypeAndName list \<Rightarrow> 'c ColumnWithTypeAndName \<Rightarrow> 'c ColumnWithTypeAndName list" where
  "insert_col block elem = block @ [elem]"

definition getByPosition ::
  "'c ColumnWithTypeAndName list \<Rightarrow> nat \<Rightarrow> error + 'c ColumnWithTypeAndName" where
  "getByPosition block position =
     (if position < length block then Inr (block ! position) else Inl OUT_OF_BOUNDS)"

definition cloneEmpty :: "Block \<Rightarrow> Block" where
  "cloneEmpty block =
     map (\<lambda>elem. elem\<lparr>column := map_option (\<lambda>c. cloneResized c 0) (column elem)\<rparr>) block"

subsection \<open>The function framework\<close>

text \<open>
  Modelled from the spec: \<^verbatim>\<open>FunctionFactory\<close>, \<^verbatim>\<open>IFunctionOverloadResolver\<close>,
  \<^verbatim>\<open>IFunctionBase\<close> and \<^verbatim>\<open>IExecutableFunction\<close> (Functions/) are not among the source
  files. The spec's \<open>resolve(operationName, argumentSpecs) -> BoundCallable\<close> with
  \<open>invoke(batch, inputPositions, outputPosition, rowCount)\<close>: a resolver builds, from the
  argument descriptions, a function base with a return type, or fails; preparing the base
  gives the executable; the executable computes a result column from the argument columns
  and the row count, or fails, and \<open>invoke\<close> stores the result in the block's column at the
  output position. Every failure of these collaborators is an \<open>Underlying\<close> error.
\<close>

type_synonym ExecutableFunction = "IColumn option list \<Rightarrow> nat \<Rightarrow> string + IColumn"

record FunctionBase =
  getReturnType :: data_type
  prepare :: "Block \<Rightarrow> nat list \<Rightarrow> nat \<Rightarrow> ExecutableFunction"

type_synonym FunctionOverloadResolver = "IColumn ColumnWithTypeAndName list \<Rightarrow> string + FunctionBase"

type_synonym Context = "string \<Rightarrow> string + FunctionOverloadResolver"

definition invoke ::
  "ExecutableFunction \<Rightarrow> Block \<Rightarrow> nat list \<Rightarrow> nat \<Rightarrow> nat \<Rightarrow> error + Block" where
  "invoke f block arguments result rows =
     (if list_all (\<lambda>p. p < columns block) arguments \<and> result < columns block
      then (case f (map (\<lambda>p. column (block ! p)) arguments) rows of
              Inl e \<Rightarrow> Inl (Underlying e)
            | Inr c \<Rightarrow> Inr (block[result := (block ! result)\<lparr>column := Some c\<rparr>]))
      else Inl OUT_OF_BOUNDS)"

section \<open>DictionaryReader\<close>

subsection \<open>FunctionWrapper\<close>

record FunctionWrapper =
  function' :: ExecutableFunction
  arg_positions :: "nat list"
  result_pos :: nat

text \<open>
  The constructor of \<^verbatim>\<open>FunctionWrapper\<close> (lines 32-46). The block is passed by reference
  and read twice (\<^verbatim>\<open>block.columns()\<close>, \<^verbatim>\<open>prepare\<close>); the local \<^verbatim>\<open>result\<close> gets its name
  and type and is only used for the type check, so the block is the same after the call.
\<close>

definition FunctionWrapper_new ::
  "FunctionOverloadResolver \<Rightarrow> IColumn ColumnWithTypeAndName list \<Rightarrow> Block \<Rightarrow> nat list \<Rightarrow> string
     \<Rightarrow> TypeIndex \<Rightarrow> error + FunctionWrapper" where
  "FunctionWrapper_new resolver arguments block arg_positions' column_name expected_type =
     (case resolver arguments of
        Inl e \<Rightarrow> Inl (Underlying e)
      | Inr prepare_function \<Rightarrow>
          (let result_pos' = columns block;
               result = (\<lparr>column = None, type = getReturnType prepare_function,
                          name = ''get_'' @ column_name\<rparr> :: IColumn ColumnWithTypeAndName)
           in if getTypeId (type result) \<noteq> expected_type
              then Inl (TYPE_MISMATCH (''Type mismatch in dictionary reader for: '' @ column_name))
              else Inr \<lparr>function' = prepare prepare_function block arg_positions' result_pos',
                        arg_positions = arg_positions',
                        result_pos = result_pos'\<rparr>))"

text \<open>\<^verbatim>\<open>FunctionWrapper::execute\<close> (lines 48-51).\<close>

definition execute :: "FunctionWrapper \<Rightarrow> Block \<Rightarrow> nat \<Rightarrow> error + Block" where
  "execute fw block rows = invoke (function' fw) block (arg_positions fw) (result_pos fw) rows"

subsection \<open>The constructor\<close>

record 'c DictionaryReader =
  result_header :: "'c ColumnWithTypeAndName list"
  sample_block :: "'c ColumnWithTypeAndName list"
  key_position :: nat
  function_has :: FunctionWrapper
  functions_get :: "FunctionWrapper list"

text \<open>
  \<^verbatim>\<open>makeResultBlock\<close> (lines 174-185); a \<^verbatim>\<open>NameAndTypePair\<close> is the pair of its name and
  its type.
\<close>

definition makeResultBlock :: "(string \<times> data_type) list \<Rightarrow> Block" where
  "makeResultBlock names =
     foldl (\<lambda>block nm.
        let col = \<lparr>column = None, type = snd nm, name = fst nm\<rparr>
        in insert_col block
             (if isNullable (type col) then col\<lparr>type := getNestedType (type col)\<rparr> else col))
       [] names"

text \<open>The argument descriptions built in lines 65-91.\<close>

definition dict_name_arg :: "string \<Rightarrow> IColumn ColumnWithTypeAndName" where
  "dict_name_arg dictionary_name =
     \<lparr>column = Some (ColumnConst 1 (FieldString dictionary_name)), type = DataTypeString,
      name = ''dict''\<rparr>"

definition key_arg :: "IColumn ColumnWithTypeAndName" where
  "key_arg = \<lparr>column = None, type = DataTypeUInt64, name = ''key''\<rparr>"

definition column_name_arg :: "IColumn ColumnWithTypeAndName" where
  "column_name_arg = \<lparr>column = None, type = DataTypeString, name = ''column''\<rparr>"

definition arguments_has :: "string \<Rightarrow> IColumn ColumnWithTypeAndName list" where
  "arguments_has dictionary_name = [dict_name_arg dictionary_name, key_arg]"

definition arguments_get :: "string \<Rightarrow> IColumn ColumnWithTypeAndName list" where
  "arguments_get dictionary_name = [dict_name_arg dictionary_name, column_name_arg, key_arg]"

text \<open>The sample block of lines 93-105: the dictionary name, one constant column per
  source column name, the key.\<close>

definition make_sample_block :: "string \<Rightarrow> string list \<Rightarrow> Block" where
  "make_sample_block dictionary_name src_column_names =
     insert_col
       (foldl (\<lambda>block columns_name.
           insert_col block
             \<lparr>column = Some (ColumnConst 1 (FieldString columns_name)), type = DataTypeString,
              name = ''col_'' @ columns_name\<rparr>)
          (insert_col [] (dict_name_arg dictionary_name)) src_column_names)
       key_arg"

text \<open>
  The loop of lines 112-119 over the columns of the result header, \<open>i\<close> counting from 0.
  Every wrapper is built from the same resolver, the same arguments and the same block.
\<close>

fun make_functions_get ::
  "FunctionOverloadResolver \<Rightarrow> IColumn ColumnWithTypeAndName list \<Rightarrow> Block \<Rightarrow> nat \<Rightarrow> nat
     \<Rightarrow> Block \<Rightarrow> nat \<Rightarrow> error + FunctionWrapper list" where
  "make_functions_get dict_get arguments block key_size key_pos [] i = Inr []"
| "make_functions_get dict_get arguments block key_size key_pos (col # header) i =
     (let column_name_pos = size_t_add key_size i;
          positions_get = [0, column_name_pos, key_pos]
      in case FunctionWrapper_new dict_get arguments block positions_get (name col)
                (getTypeId (type col)) of
           Inl e \<Rightarrow> Inl e
         | Inr fw \<Rightarrow>
             (case make_functions_get dict_get arguments block key_size key_pos header (i + 1) of
                Inl e \<Rightarrow> Inl e
              | Inr fws \<Rightarrow> Inr (fw # fws)))"

text \<open>The constructor of \<^verbatim>\<open>DictionaryReader\<close> (lines 54-120).\<close>

definition DictionaryReader_new ::
  "string \<Rightarrow> string list \<Rightarrow> (string \<times> data_type) list \<Rightarrow> Context \<Rightarrow> nat
     \<Rightarrow> error + IColumn DictionaryReader" where
  "DictionaryReader_new dictionary_name src_column_names result_columns context key_size =
     (let result_header' = makeResultBlock result_columns;
          key_position' = size_t_add key_size (columns result_header')
      in if length src_column_names \<noteq> length result_columns
         then Inl (NUMBER_OF_COLUMNS_DOESNT_MATCH ''Columns number mismatch in dictionary reader'')
         else
          (case context ''dictHas'' of
             Inl e \<Rightarrow> Inl (Underlying e)
           | Inr dict_has \<Rightarrow>
          (case context ''dictGet'' of
             Inl e \<Rightarrow> Inl (Underlying e)
           | Inr dict_get \<Rightarrow>
          (let sample_block' = make_sample_block dictionary_name src_column_names;
               positions_has = [0, key_position']
           in case FunctionWrapper_new dict_has (arguments_has dictionary_name) sample_block'
                     positions_has ''has'' (getTypeId DataTypeUInt8) of
                Inl e \<Rightarrow> Inl e
              | Inr function_has' \<Rightarrow>
                  (case make_functions_get dict_get (arguments_get dictionary_name)
                          sample_block' key_size key_position' result_header' 0 of
                     Inl e \<Rightarrow> Inl e
                   | Inr functions_get' \<Rightarrow>
                       Inr \<lparr>result_header = result_header',
                            sample_block = sample_block',
                            key_position = key_position',
                            function_has = function_has',
                            functions_get = functions_get'\<rparr>)))))"

subsection \<open>readKeys\<close>

text \<open>
  Lines 125-130: the working block is a copy of the sample block, and the column at the
  key position becomes a resized copy of the caller's keys.
\<close>

definition set_keys :: "Block \<Rightarrow> nat \<Rightarrow> IColumn \<Rightarrow> nat \<Rightarrow> error + Block" where
  "set_keys working_block key_pos keys size' =
     (case getByPosition working_block key_pos of
        Inl e \<Rightarrow> Inl e
      | Inr key_column \<Rightarrow>
          Inr (working_block[key_pos := key_column\<lparr>column := Some (cloneResized keys size')\<rparr>]))"

text \<open>
  Line 136: \<^verbatim>\<open>found.swap(typeid_cast<ColumnVector<UInt8> &>(*mutable_has).getData())\<close>. The
  caller's vector gets the data of the column and the column gets the caller's old vector.
\<close>

fun swap_found :: "8 word list \<Rightarrow> IColumn \<Rightarrow> error + (8 word list \<times> IColumn)" where
  "swap_found found (ColumnUInt8 data) = Inr (data, ColumnUInt8 found)"
| "swap_found found c = Inl BAD_CAST"

text \<open>Lines 134-137: the column at the has position is taken, cast, swapped and nulled.\<close>

definition extract_has ::
  "Block \<Rightarrow> nat \<Rightarrow> 8 word list \<Rightarrow> error + (8 word list \<times> Block)" where
  "extract_has working_block has_position found =
     (case getByPosition working_block has_position of
        Inl e \<Rightarrow> Inl e
      | Inr has_column \<Rightarrow>
          (case column has_column of
             None \<Rightarrow> Inl NULL_POINTER
           | Some mutable_has \<Rightarrow>
               (case swap_found found mutable_has of
                  Inl e \<Rightarrow> Inl e
                | Inr (found', dropped) \<Rightarrow>
                    Inr (found', working_block[has_position := has_column\<lparr>column := None\<rparr>]))))"

text \<open>
  Lines 142-145: \<^verbatim>\<open>for (size_t i = 0; i < size; ++i) if (found[i]) positions[i] = pos++;\<close>.
  Reading \<^verbatim>\<open>found[i]\<close> past the end of the vector is undefined behaviour.
\<close>

function positions_loop ::
  "8 word list \<Rightarrow> nat \<Rightarrow> nat \<Rightarrow> nat \<Rightarrow> nat list \<Rightarrow> error + nat list" where
  "positions_loop found size' i pos positions =
     (if i < size'
      then (if i < length found
            then (if found ! i \<noteq> 0
                  then positions_loop found size' (i + 1) (pos + 1) (positions[i := pos])
                  else positions_loop found size' (i + 1) pos positions)
            else Inl OUT_OF_BOUNDS)
      else Inr positions)"
  by pat_completeness auto
termination
  by (relation "measure (\<lambda>(found, size', i, pos, positions). size' - i)") auto

text \<open>Lines 140-145: \<^verbatim>\<open>positions.clear(); positions.resize(size, 0);\<close> and the loop.\<close>

definition make_positions :: "nat list \<Rightarrow> 8 word list \<Rightarrow> nat \<Rightarrow> error + nat list" where
  "make_positions positions found size' =
     (let cleared = [] in positions_loop found size' 0 0 (resize cleared size' 0))"

text \<open>Lines 148-149: the key column is replaced by its filtered copy; \<open>rows\<close> is its size.\<close>

definition filter_keys :: "Block \<Rightarrow> nat \<Rightarrow> 8 word list \<Rightarrow> error + (Block \<times> nat)" where
  "filter_keys working_block key_pos found =
     (case getByPosition working_block key_pos of
        Inl e \<Rightarrow> Inl e
      | Inr key_column \<Rightarrow>
          (case column key_column of
             None \<Rightarrow> Inl NULL_POINTER
           | Some keys \<Rightarrow>
               (case filter_col keys found of
                  Inl e \<Rightarrow> Inl e
                | Inr filtered \<Rightarrow>
                    Inr (working_block[key_pos := key_column\<lparr>column := Some filtered\<rparr>],
                         size_col filtered))))"

text \<open>Lines 152-153: every get function runs, in the order of \<^verbatim>\<open>functions_get\<close>.\<close>

fun execute_all :: "FunctionWrapper list \<Rightarrow> Block \<Rightarrow> nat \<Rightarrow> error + Block" where
  "execute_all [] working_block rows = Inr working_block"
| "execute_all (func # funcs) working_block rows =
     (case execute func working_block rows of
        Inl e \<Rightarrow> Inl e
      | Inr working_block' \<Rightarrow> execute_all funcs working_block' rows)"

text \<open>
  Lines 158-164: for each position \<open>i\<close> of the output block, the column of the working
  block at \<open>first_get_position + i\<close> (a \<^verbatim>\<open>size_t\<close> sum) moves to the output block and its slot is nulled.
\<close>

fun move_columns ::
  "nat list \<Rightarrow> nat \<Rightarrow> 'c ColumnWithTypeAndName list \<Rightarrow> 'c ColumnWithTypeAndName list
     \<Rightarrow> error + ('c ColumnWithTypeAndName list \<times> 'c ColumnWithTypeAndName list)" where
  "move_columns [] first_get_position working_block out_block = Inr (working_block, out_block)"
| "move_columns (i # rest) first_get_position working_block out_block =
     (case getByPosition working_block (size_t_add first_get_position i) of
        Inl e \<Rightarrow> Inl e
      | Inr src_column \<Rightarrow>
          (case getByPosition out_block i of
             Inl e \<Rightarrow> Inl e
           | Inr dst_column \<Rightarrow>
               move_columns rest first_get_position
                 (working_block[size_t_add first_get_position i := src_column\<lparr>column := None\<rparr>])
                 (out_block[i := dst_column\<lparr>column := column src_column\<rparr>])))"

text \<open>
  \<^verbatim>\<open>readKeys\<close> (lines 122-165). The three references \<^verbatim>\<open>out_block\<close>, \<^verbatim>\<open>found\<close> and
  \<^verbatim>\<open>positions\<close> are passed in with the caller's contents and returned with the new ones;
  an exception leaves no result.
\<close>

definition readKeys ::
  "IColumn DictionaryReader \<Rightarrow> IColumn \<Rightarrow> nat \<Rightarrow> Block \<times> 8 word list \<times> nat list
     \<Rightarrow> error + (Block \<times> 8 word list \<times> nat list)" where
  "readKeys this keys size' refs =
     (case refs of (out_block, found, positions) \<Rightarrow>
      (let working_block = sample_block this;
           has_position = size_t_add (key_position this) 1
       in case set_keys working_block (key_position this) keys size' of
            Inl e \<Rightarrow> Inl e
          | Inr working_block1 \<Rightarrow>
       (case execute (function_has this) working_block1 size' of
            Inl e \<Rightarrow> Inl e
          | Inr working_block2 \<Rightarrow>
       (case extract_has working_block2 has_position found of
            Inl e \<Rightarrow> Inl e
          | Inr (found', working_block3) \<Rightarrow>
       (case make_positions positions found' size' of
            Inl e \<Rightarrow> Inl e
          | Inr positions' \<Rightarrow>
       (case filter_keys working_block3 (key_position this) found' of
            Inl e \<Rightarrow> Inl e
          | Inr (working_block4, rows) \<Rightarrow>
       (case execute_all (functions_get this) working_block4 rows of
            Inl e \<Rightarrow> Inl e
          | Inr working_block5 \<Rightarrow>
       (let out_block' = cloneEmpty (result_header this);
            first_get_position = size_t_add has_position 1
        in case move_columns [0 ..< columns out_block'] first_get_position working_block5
                  out_block' of
             Inl e \<Rightarrow> Inl e
           | Inr (working_block6, out_block'') \<Rightarrow> Inr (out_block'', found', positions')))))))))"

subsection \<open>Example dictionaries\<close>

text \<open>
  A context that knows \<^verbatim>\<open>dictHas\<close> and \<^verbatim>\<open>dictGet\<close>, each resolving to a given function
  base whatever the arguments.
\<close>

definition dict_context :: "FunctionBase \<Rightarrow> FunctionBase \<Rightarrow> Context" where
  "dict_context has_base get_base function_name =
     (if function_name = ''dictHas'' then Inr (\<lambda>arguments. Inr has_base)
      else if function_name = ''dictGet'' then Inr (\<lambda>arguments. Inr get_base)
      else Inl ''Unknown function'')"

text \<open>
  The dictionary of the spec's end-to-end scenario, with string attributes: key 10 is
  Alice of Paris, key 12 is Bob of Rome. Its \<^verbatim>\<open>dictHas\<close> returns UInt8 and its
  \<^verbatim>\<open>dictGet\<close> returns String.
\<close>

definition example_dictionary :: "(64 word \<times> (string \<times> string) list) list" where
  "example_dictionary =
     [(10, [(''name'', ''Alice''), (''city'', ''Paris'')]),
      (12, [(''name'', ''Bob''), (''city'', ''Rome'')])]"

fun example_has :: ExecutableFunction where
  "example_has [Some (ColumnConst n d), Some (ColumnUInt64 ks)] rows =
     Inr (ColumnUInt8 (map (\<lambda>k. if map_of example_dictionary k = None then 0 else 1) ks))"
| "example_has args rows = Inl ''Illegal arguments of dictHas''"

fun example_get :: ExecutableFunction where
  "example_get [Some (ColumnConst n d), Some (ColumnConst m (FieldString attr)),
                Some (ColumnUInt64 ks)] rows =
     Inr (ColumnString
       (map (\<lambda>k. case map_of example_dictionary k of
                   None \<Rightarrow> []
                 | Some attrs \<Rightarrow> (case map_of attrs attr of None \<Rightarrow> [] | Some v \<Rightarrow> v)) ks))"
| "example_get args rows = Inl ''Illegal arguments of dictGet''"

definition example_context :: Context where
  "example_context =
     dict_context
       \<lparr>getReturnType = DataTypeUInt8, prepare = (\<lambda>block args result. example_has)\<rparr>
       \<lparr>getReturnType = DataTypeString, prepare = (\<lambda>block args result. example_get)\<rparr>"

text \<open>
  A dictionary of prices whose attributes are Decimal32 with scale 4 (the raw value 125000
  is 12.5): its \<^verbatim>\<open>dictGet\<close> returns Decimal32(4).
\<close>

definition price_dictionary :: "(64 word \<times> (string \<times> 32 word) list) list" where
  "price_dictionary = [(10, [(''price'', 125000)]), (12, [(''price'', 990000)])]"

fun price_has :: ExecutableFunction where
  "price_has [Some (ColumnConst n d), Some (ColumnUInt64 ks)] rows =
     Inr (ColumnUInt8 (map (\<lambda>k. if map_of price_dictionary k = None then 0 else 1) ks))"
| "price_has args rows = Inl ''Illegal arguments of dictHas''"

fun price_get :: ExecutableFunction where
  "price_get [Some (ColumnConst n d), Some (ColumnConst m (FieldString attr)),
              Some (ColumnUInt64 ks)] rows =
     Inr (ColumnDecimal32
       (map (\<lambda>k. case map_of price_dictionary k of
                   None \<Rightarrow> 0
                 | Some attrs \<Rightarrow> (case map_of attrs attr of None \<Rightarrow> 0 | Some v \<Rightarrow> v)) ks))"
| "price_get args rows = Inl ''Illegal arguments of dictGet''"

definition price_context :: Context where
  "price_context =
     dict_context
       \<lparr>getReturnType = DataTypeUInt8, prepare = (\<lambda>block args result. price_has)\<rparr>
       \<lparr>getReturnType = DataTypeDecimal32 4, prepare = (\<lambda>block args result. price_get)\<rparr>"

text \<open>
  The reader that line 169 describes for the example dictionary and the attributes
  \<open>name\<close> and \<open>city\<close>: "dictionary name, column names, key, dictHas() result, dictGet()
  results". Its sample block has, after the key, one column for the result of each
  function, and each function writes to its own.
\<close>

definition described_reader :: "IColumn DictionaryReader" where
  "described_reader =
     \<lparr>result_header = makeResultBlock [(''name'', DataTypeString), (''city'', DataTypeString)],
      sample_block =
        make_sample_block ''d'' [''name'', ''city''] @
        [\<lparr>column = None, type = DataTypeUInt8, name = ''get_has''\<rparr>,
         \<lparr>column = None, type = DataTypeString, name = ''get_name''\<rparr>,
         \<lparr>column = None, type = DataTypeString, name = ''get_city''\<rparr>],
      key_position = 3,
      function_has = \<lparr>function' = example_has, arg_positions = [0, 3], result_pos = 4\<rparr>,
      functions_get =
        [\<lparr>function' = example_get, arg_positions = [0, 1, 3], result_pos = 5\<rparr>,
         \<lparr>function' = example_get, arg_positions = [0, 2, 3], result_pos = 6\<rparr>]\<rparr>"

section \<open>readKeys on column objects\<close>

text \<open>
  Modelled from the spec: \<^verbatim>\<open>ColumnPtr\<close> and \<^verbatim>\<open>mutate()\<close> (Common/COW.h) are not among the
  source files. A block holds pointers to column objects, and
  \<^verbatim>\<open>Block working_block = sample_block\<close> copies the pointers, not the objects: the working
  block starts out sharing every column with the sample block. The spec's "ownership":
  "the working batch takes a resized copy of the input keys; the caller's key batch is
  never mutated", columns move between blocks "by ownership transfer". To state what a
  call changes, this section reads \<^verbatim>\<open>readKeys\<close> a second time with the column objects
  in a heap: an address is an index into the list of objects, a new object goes to the
  end. \<^verbatim>\<open>mutate()\<close> gives the object itself when the pointer is its only owner and a
  copy of it otherwise.
\<close>

type_synonym addr = nat

type_synonym heap = "IColumn list"

type_synonym PBlock = "addr ColumnWithTypeAndName list"

definition alloc :: "heap \<Rightarrow> IColumn \<Rightarrow> heap \<times> addr" where
  "alloc h c = (h @ [c], length h)"

definition deref :: "heap \<Rightarrow> addr option \<Rightarrow> IColumn option" where
  "deref h p = (case p of None \<Rightarrow> None | Some a \<Rightarrow> if a < length h then Some (h ! a) else None)"

text \<open>
  The objects in scope of one call: the heap, the reader (\<^verbatim>\<open>this\<close>), the caller's key
  column, the three references of the caller, and the locals \<^verbatim>\<open>working_block\<close> and
  \<^verbatim>\<open>rows\<close>.
\<close>

record call_state =
  st_heap :: heap
  st_this :: "addr DictionaryReader"
  st_keys :: addr
  st_out_block :: PBlock
  st_found :: "8 word list"
  st_positions :: "nat list"
  st_working_block :: PBlock
  st_rows :: nat

text \<open>
  A step that throws leaves the state as it was before the step; the steps run in order
  until one throws.
\<close>

definition then_step ::
  "call_state \<times> error option \<Rightarrow> (call_state \<Rightarrow> error + call_state)
     \<Rightarrow> call_state \<times> error option" where
  "then_step r step =
     (case r of
        (s, Some e) \<Rightarrow> (s, Some e)
      | (s, None) \<Rightarrow> (case step s of Inl e \<Rightarrow> (s, Some e) | Inr s' \<Rightarrow> (s', None)))"

text \<open>Line 125.\<close>

definition copy_sample_block :: "call_state \<Rightarrow> error + call_state" where
  "copy_sample_block s = Inr (s\<lparr>st_working_block := sample_block (st_this s)\<rparr>)"

text \<open>Lines 129-130: \<^verbatim>\<open>cloneResized\<close> makes a new object.\<close>

definition store_set_keys :: "nat \<Rightarrow> call_state \<Rightarrow> error + call_state" where
  "store_set_keys size' s =
     (case getByPosition (st_working_block s) (key_position (st_this s)) of
        Inl e \<Rightarrow> Inl e
      | Inr key_column \<Rightarrow>
          (case deref (st_heap s) (Some (st_keys s)) of
             None \<Rightarrow> Inl NULL_POINTER
           | Some keys \<Rightarrow>
               (case alloc (st_heap s) (cloneResized keys size') of
                  (h, a) \<Rightarrow>
                    Inr (s\<lparr>st_heap := h,
                           st_working_block :=
                             (st_working_block s)[key_position (st_this s) :=
                                key_column\<lparr>column := Some a\<rparr>]\<rparr>))))"

text \<open>
  \<^verbatim>\<open>FunctionWrapper::execute\<close> on the working block: the function reads the objects its
  argument columns point to and its result is a new object.
\<close>

definition store_execute :: "FunctionWrapper \<Rightarrow> nat \<Rightarrow> call_state \<Rightarrow> error + call_state" where
  "store_execute fw rows s =
     (let block = st_working_block s in
      if list_all (\<lambda>p. p < columns block) (arg_positions fw) \<and> result_pos fw < columns block
      then (case function' fw (map (\<lambda>p. deref (st_heap s) (column (block ! p))) (arg_positions fw))
                   rows of
              Inl e \<Rightarrow> Inl (Underlying e)
            | Inr c \<Rightarrow>
                (case alloc (st_heap s) c of
                   (h, a) \<Rightarrow>
                     Inr (s\<lparr>st_heap := h,
                            st_working_block :=
                              block[result_pos fw := (block ! result_pos fw)\<lparr>column := Some a\<rparr>]\<rparr>)))
      else Inl OUT_OF_BOUNDS)"

text \<open>
  The owners of an object: the pointers to it in the blocks of the reader, in the working
  block and in the caller's output block, and the caller's own key column.
\<close>

definition owners_in :: "PBlock \<Rightarrow> addr \<Rightarrow> nat" where
  "owners_in block a = length (filter (\<lambda>elem. column elem = Some a) block)"

definition use_count :: "call_state \<Rightarrow> addr \<Rightarrow> nat" where
  "use_count s a =
     owners_in (sample_block (st_this s)) a + owners_in (result_header (st_this s)) a
     + owners_in (st_working_block s) a + owners_in (st_out_block s) a
     + (if a = st_keys s then 1 else 0)"

text \<open>
  Lines 134-137: \<^verbatim>\<open>mutate()\<close> copies the has column unless the working block is its only
  owner; the swap of line 136 writes the caller's old vector into that object.
\<close>

definition store_extract_has :: "call_state \<Rightarrow> error + call_state" where
  "store_extract_has s =
     (let has_position = size_t_add (key_position (st_this s)) 1 in
      case getByPosition (st_working_block s) has_position of
        Inl e \<Rightarrow> Inl e
      | Inr has_column \<Rightarrow>
          (case column has_column of
             None \<Rightarrow> Inl NULL_POINTER
           | Some a \<Rightarrow>
               (case deref (st_heap s) (Some a) of
                  None \<Rightarrow> Inl NULL_POINTER
                | Some c \<Rightarrow>
                    (case (if 1 < use_count s a then alloc (st_heap s) c else (st_heap s, a)) of
                       (h, mutable_has) \<Rightarrow>
                         (case swap_found (st_found s) c of
                            Inl e \<Rightarrow> Inl e
                          | Inr (found', dropped) \<Rightarrow>
                              Inr (s\<lparr>st_heap := h[mutable_has := dropped],
                                     st_found := found',
                                     st_working_block :=
                                       (st_working_block s)[has_position :=
                                          has_column\<lparr>column := None\<rparr>]\<rparr>))))))"

text \<open>Lines 140-145.\<close>

definition store_positions :: "nat \<Rightarrow> call_state \<Rightarrow> error + call_state" where
  "store_positions size' s =
     (case make_positions (st_positions s) (st_found s) size' of
        Inl e \<Rightarrow> Inl e
      | Inr positions' \<Rightarrow> Inr (s\<lparr>st_positions := positions'\<rparr>))"

text \<open>Lines 148-149: \<^verbatim>\<open>filter\<close> makes a new object.\<close>

definition store_filter_keys :: "call_state \<Rightarrow> error + call_state" where
  "store_filter_keys s =
     (case getByPosition (st_working_block s) (key_position (st_this s)) of
        Inl e \<Rightarrow> Inl e
      | Inr key_column \<Rightarrow>
          (case deref (st_heap s) (column key_column) of
             None \<Rightarrow> Inl NULL_POINTER
           | Some keys \<Rightarrow>
               (case filter_col keys (st_found s) of
                  Inl e \<Rightarrow> Inl e
                | Inr filtered \<Rightarrow>
                    (case alloc (st_heap s) filtered of
                       (h, a) \<Rightarrow>
                         Inr (s\<lparr>st_heap := h,
                                st_working_block :=
                                  (st_working_block s)[key_position (st_this s) :=
                                     key_column\<lparr>column := Some a\<rparr>],
                                st_rows := size_col filtered\<rparr>)))))"

text \<open>Lines 152-153.\<close>

fun store_execute_all :: "FunctionWrapper list \<Rightarrow> call_state \<Rightarrow> error + call_state" where
  "store_execute_all [] s = Inr s"
| "store_execute_all (func # funcs) s =
     (case store_execute func (st_rows s) s of
        Inl e \<Rightarrow> Inl e
      | Inr s' \<Rightarrow> store_execute_all funcs s')"

text \<open>Line 156: \<^verbatim>\<open>cloneEmpty\<close> makes a new, empty object for every column that is present.\<close>

fun store_cloneEmpty :: "heap \<Rightarrow> PBlock \<Rightarrow> heap \<times> PBlock" where
  "store_cloneEmpty h [] = (h, [])"
| "store_cloneEmpty h (elem # block) =
     (case deref h (column elem) of
        None \<Rightarrow>
          (case store_cloneEmpty h block of
             (h', block') \<Rightarrow> (h', elem\<lparr>column := None\<rparr> # block'))
      | Some c \<Rightarrow>
          (case alloc h (cloneResized c 0) of
             (h1, a) \<Rightarrow>
               (case store_cloneEmpty h1 block of
                  (h', block') \<Rightarrow> (h', elem\<lparr>column := Some a\<rparr> # block'))))"

text \<open>Lines 156-164: the pointers move from the working block to the output block.\<close>

definition store_make_result :: "call_state \<Rightarrow> error + call_state" where
  "store_make_result s =
     (case store_cloneEmpty (st_heap s) (result_header (st_this s)) of
        (h, out_block') \<Rightarrow>
          (let has_position = size_t_add (key_position (st_this s)) 1;
               first_get_position = size_t_add has_position 1
           in case move_columns [0 ..< columns out_block'] first_get_position
                     (st_working_block s) out_block' of
                Inl e \<Rightarrow> Inl e
              | Inr (working_block', out_block'') \<Rightarrow>
                  Inr (s\<lparr>st_heap := h, st_working_block := working_block',
                         st_out_block := out_block''\<rparr>)))"

text \<open>\<^verbatim>\<open>readKeys\<close> (lines 122-165) on a call state: the state it leaves, and its exception.\<close>

definition readKeys_store :: "call_state \<Rightarrow> nat \<Rightarrow> call_state \<times> error option" where
  "readKeys_store s size' =
     then_step (then_step (then_step (then_step (then_step (then_step (then_step (then_step
       (s, None)
       copy_sample_block)
       (store_set_keys size'))
       (store_execute (function_has (st_this s)) size'))
       store_extract_has)
       (store_positions size'))
       store_filter_keys)
       (\<lambda>s'. store_execute_all (functions_get (st_this s')) s'))
       store_make_result"

text \<open>
  The objects a call must leave alone: the caller's key column and what the two blocks of
  the reader point to. A state is sound when they all exist.
\<close>

definition pointers :: "PBlock \<Rightarrow> addr list" where
  "pointers block = concat (map (\<lambda>elem. case column elem of None \<Rightarrow> [] | Some a \<Rightarrow> [a]) block)"

definition roots :: "call_state \<Rightarrow> addr list" where
  "roots s =
     st_keys s # pointers (sample_block (st_this s)) @ pointers (result_header (st_this s))"

definition sound :: "call_state \<Rightarrow> bool" where
  "sound s = list_all (\<lambda>a. a < length (st_heap s)) (roots s)"

text \<open>
  A reader in the heap: every column of a block that the constructor has made becomes an
  object of its own.
\<close>

fun store_block :: "heap \<Rightarrow> Block \<Rightarrow> heap \<times> PBlock" where
  "store_block h [] = (h, [])"
| "store_block h (elem # block) =
     (case column elem of
        None \<Rightarrow>
          (case store_block h block of
             (h', block') \<Rightarrow> (h', \<lparr>column = None, type = type elem, name = name elem\<rparr> # block'))
      | Some c \<Rightarrow>
          (case alloc h c of
             (h1, a) \<Rightarrow>
               (case store_block h1 block of
                  (h', block') \<Rightarrow>
                    (h', \<lparr>column = Some a, type = type elem, name = name elem\<rparr> # block'))))"

definition store_reader ::
  "heap \<Rightarrow> IColumn DictionaryReader \<Rightarrow> heap \<times> addr DictionaryReader" where
  "store_reader h reader =
     (case store_block h (result_header reader) of
        (h1, header) \<Rightarrow>
          (case store_block h1 (sample_block reader) of
             (h2, sample) \<Rightarrow>
               (h2, \<lparr>result_header = header, sample_block = sample,
                     key_position = key_position reader,
                     function_has = function_has reader,
                     functions_get = functions_get reader\<rparr>)))"

text \<open>
  The state in which a caller with its key column, an empty output block and empty
  vectors calls \<^verbatim>\<open>readKeys\<close> on a reader.
\<close>

definition call_of :: "IColumn DictionaryReader \<Rightarrow> IColumn \<Rightarrow> call_state" where
  "call_of reader keys =
     (case store_reader [] reader of
        (h, this) \<Rightarrow>
          (case alloc h keys of
             (h', a) \<Rightarrow>
               \<lparr>st_heap = h', st_this = this, st_keys = a, st_out_block = [],
                st_found = [], st_positions = [], st_working_block = [], st_rows = 0\<rparr>))"

text \<open>
  What a block of pointers holds: every pointer replaced by the object it points to. It
  relates the two readings of \<^verbatim>\<open>readKeys\<close>.
\<close>

definition load_block :: "heap \<Rightarrow> PBlock \<Rightarrow> Block" where
  "load_block h block =
     map (\<lambda>elem. \<lparr>column = deref h (column elem), type = type elem, name = name elem\<rparr>) block"

definition load_reader :: "heap \<Rightarrow> addr DictionaryReader \<Rightarrow> IColumn DictionaryReader" where
  "load_reader h reader =
     \<lparr>result_header = load_block h (result_header reader),
      sample_block = load_block h (sample_block reader),
      key_position = key_position reader,
      function_has = function_has reader,
      functions_get = functions_get reader\<rparr>"

text \<open>A block is valid in a heap when every pointer of the block is an object of the heap.\<close>

definition valid :: "heap \<Rightarrow> PBlock \<Rightarrow> bool" where
  "valid h block = list_all (\<lambda>a. a < length h) (pointers block)"

text \<open>
  Two relations between the state at the call and a later state, for the proofs. \<open>kept\<close>:
  the reader and the key reference are the same, the heap has not shrunk, every root
  object holds what it held, and the working block has the names and types of the sample
  block. \<open>installed\<close>: the first object made since the call holds \<open>c\<close>, and no column of
  the working block but the key column points to it.
\<close>

definition kept :: "call_state \<Rightarrow> call_state \<Rightarrow> bool" where
  "kept s0 s =
     (st_this s = st_this s0 \<and> st_keys s = st_keys s0
      \<and> length (st_heap s0) \<le> length (st_heap s)
      \<and> list_all (\<lambda>a. st_heap s ! a = st_heap s0 ! a) (roots s0)
      \<and> map (\<lambda>e. (name e, type e)) (st_working_block s) =
          map (\<lambda>e. (name e, type e)) (sample_block (st_this s0)))"

definition installed :: "call_state \<Rightarrow> IColumn \<Rightarrow> call_state \<Rightarrow> bool" where
  "installed s0 c s =
     (length (st_heap s0) < length (st_heap s) \<and> st_heap s ! length (st_heap s0) = c
      \<and> list_all (\<lambda>i. i = key_position (st_this s0) \<or>
              column (st_working_block s ! i) \<noteq> Some (length (st_heap s0)))
            [0 ..< length (st_working_block s)])"

section \<open>Properties\<close>

declare positions_loop.simps [simp del]

subsection \<open>Construction\<close>

lemma makeResultBlock_foldl:
  "foldl (\<lambda>block nm. insert_col block (f nm)) acc names = acc @ map f names"
  by (induction names arbitrary: acc) (simp_all add: insert_col_def)

lemma makeResultBlock_map:
  "makeResultBlock names =
     map (\<lambda>nm. \<lparr>column = None,
                 type = (if isNullable (snd nm) then getNestedType (snd nm) else snd nm),
                 name = fst nm\<rparr>) names"
proof -
  have "makeResultBlock names =
      foldl (\<lambda>block nm. insert_col block
         \<lparr>column = None,
          type = (if isNullable (snd nm) then getNestedType (snd nm) else snd nm),
          name = fst nm\<rparr>) [] names"
    unfolding makeResultBlock_def Let_def
    by (rule arg_cong [where f = "\<lambda>g. foldl g [] names"]) (auto simp: fun_eq_iff)
  then show ?thesis by (simp add: makeResultBlock_foldl)
qed

lemma columns_makeResultBlock: "columns (makeResultBlock names) = length names"
  by (simp add: makeResultBlock_map columns_def)

lemma make_sample_block_eq:
  "make_sample_block d src =
     dict_name_arg d #
     map (\<lambda>c. \<lparr>column = Some (ColumnConst 1 (FieldString c)), type = DataTypeString,
                name = ''col_'' @ c\<rparr>) src @ [key_arg]"
  unfolding make_sample_block_def makeResultBlock_foldl by (simp add: insert_col_def)

lemma columns_make_sample_block: "columns (make_sample_block d src) = length src + 2"
  by (simp add: make_sample_block_eq columns_def)

lemma FunctionWrapper_new_error:
  "FunctionWrapper_new r a b ps cn t = Inl e \<Longrightarrow>
     (\<exists>u. e = Underlying u) \<or> e = TYPE_MISMATCH (''Type mismatch in dictionary reader for: '' @ cn)"
  by (auto simp: FunctionWrapper_new_def Let_def split: sum.splits if_splits)

lemma make_functions_get_error:
  "make_functions_get r a b ks kp header i = Inl e \<Longrightarrow>
     (\<exists>u. e = Underlying u) \<or> (\<exists>m. e = TYPE_MISMATCH m)"
proof (induction header arbitrary: i)
  case Nil
  then show ?case by simp
next
  case (Cons col header)
  then show ?case
    by (auto simp: Let_def split: sum.splits dest: FunctionWrapper_new_error)
qed


lemma FunctionWrapper_new_resolved:
  "resolver arguments = Inr fb \<Longrightarrow>
   FunctionWrapper_new resolver arguments block ps cn t =
     (if getTypeId (getReturnType fb) \<noteq> t
      then Inl (TYPE_MISMATCH (''Type mismatch in dictionary reader for: '' @ cn))
      else Inr \<lparr>function' = prepare fb block ps (columns block), arg_positions = ps,
                result_pos = columns block\<rparr>)"
  by (simp add: FunctionWrapper_new_def Let_def)

lemma make_functions_get_resolved:
  "dict_get arguments = Inr fg \<Longrightarrow>
   make_functions_get dict_get arguments block ks kp header i =
     (case find (\<lambda>col. getTypeId (getReturnType fg) \<noteq> getTypeId (type col)) header of
        Some col \<Rightarrow> Inl (TYPE_MISMATCH (''Type mismatch in dictionary reader for: '' @ name col))
      | None \<Rightarrow>
          Inr (map (\<lambda>j. \<lparr>function' = prepare fg block [0, size_t_add ks j, kp] (columns block),
                          arg_positions = [0, size_t_add ks j, kp],
                          result_pos = columns block\<rparr>) [i ..< i + length header]))"
proof (induction header arbitrary: i)
  case Nil
  then show ?case by simp
next
  case (Cons col header)
  have upt: "[i ..< Suc (i + length header)] = i # [Suc i ..< Suc (i + length header)]"
    by (rule upt_conv_Cons) simp
  show ?case
  proof (cases "getTypeId (getReturnType fg) \<noteq> getTypeId (type col)")
    case True
    then show ?thesis
      using Cons.prems by (simp add: FunctionWrapper_new_resolved)
  next
    case False
    then show ?thesis
      using Cons.prems Cons.IH [OF Cons.prems, of "Suc i"]
      by (simp add: FunctionWrapper_new_resolved Let_def upt split: option.splits del: upt_Suc)
  qed
qed

lemma DictionaryReader_new_resolved:
  assumes "length src = length rc"
    and "ctx ''dictHas'' = Inr dict_has" and "ctx ''dictGet'' = Inr dict_get"
    and "dict_has (arguments_has d) = Inr fh" and "dict_get (arguments_get d) = Inr fg"
  shows "DictionaryReader_new d src rc ctx ks =
     (if getTypeId (getReturnType fh) \<noteq> TI_UInt8
      then Inl (TYPE_MISMATCH ''Type mismatch in dictionary reader for: has'')
      else case find (\<lambda>col. getTypeId (getReturnType fg) \<noteq> getTypeId (type col))
                  (makeResultBlock rc) of
        Some col \<Rightarrow> Inl (TYPE_MISMATCH (''Type mismatch in dictionary reader for: '' @ name col))
      | None \<Rightarrow>
          Inr \<lparr>result_header = makeResultBlock rc,
               sample_block = make_sample_block d src,
               key_position = size_t_add ks (length rc),
               function_has =
                 \<lparr>function' = prepare fh (make_sample_block d src) [0, size_t_add ks (length rc)]
                                (length src + 2),
                  arg_positions = [0, size_t_add ks (length rc)],
                  result_pos = length src + 2\<rparr>,
               functions_get =
                 map (\<lambda>j. \<lparr>function' = prepare fg (make_sample_block d src)
                                           [0, size_t_add ks j, size_t_add ks (length rc)] (length src + 2),
                            arg_positions = [0, size_t_add ks j, size_t_add ks (length rc)],
                            result_pos = length src + 2\<rparr>) [0 ..< length rc]\<rparr>)"
proof -
  have hdr: "columns (makeResultBlock rc) = length rc"
    by (simp add: makeResultBlock_map columns_def)
  have sb: "columns (make_sample_block d src) = length src + 2"
    by (simp add: make_sample_block_eq columns_def)
  have len: "length (makeResultBlock rc) = length rc"
    by (simp add: makeResultBlock_map)
  show ?thesis
    using assms
    by (simp add: DictionaryReader_new_def Let_def hdr sb len
        FunctionWrapper_new_resolved make_functions_get_resolved
        split: option.splits)
qed

text \<open>
  C5. Construction fails with \<^verbatim>\<open>NUMBER_OF_COLUMNS_DOESNT_MATCH\<close> if and only if the number
  of source column names differs from the number of result columns; the failure is the
  exception of line 60, so the constructor returns no reader. Failures of the function
  factory, of a resolver and of the type check are other errors.
\<close>

theorem column_count_mismatch:
  "((\<exists>msg. DictionaryReader_new d src rc ctx ks = Inl (NUMBER_OF_COLUMNS_DOESNT_MATCH msg))
      = (length src \<noteq> length rc))
   \<and> (length src \<noteq> length rc \<longrightarrow>
        DictionaryReader_new d src rc ctx ks =
          Inl (NUMBER_OF_COLUMNS_DOESNT_MATCH ''Columns number mismatch in dictionary reader''))"
proof -
  have a: "DictionaryReader_new d src rc ctx ks =
          Inl (NUMBER_OF_COLUMNS_DOESNT_MATCH ''Columns number mismatch in dictionary reader'')"
    if "length src \<noteq> length rc"
    using that by (simp add: DictionaryReader_new_def Let_def)
  have b: "DictionaryReader_new d src rc ctx ks \<noteq> Inl (NUMBER_OF_COLUMNS_DOESNT_MATCH msg)"
    if "length src = length rc" for msg
    using that
    by (auto simp: DictionaryReader_new_def Let_def split: sum.splits
        dest!: FunctionWrapper_new_error make_functions_get_error)
  show ?thesis using a b by blast
qed

theorem column_count_mismatch_witness:
  "DictionaryReader_new ''d'' [''name'', ''city'']
      [(''name'', DataTypeString), (''city'', DataTypeString), (''age'', DataTypeUInt16)]
      example_context 1 =
     Inl (NUMBER_OF_COLUMNS_DOESNT_MATCH ''Columns number mismatch in dictionary reader'')"
  using column_count_mismatch [of "''d''" "[''name'', ''city'']"
      "[(''name'', DataTypeString), (''city'', DataTypeString), (''age'', DataTypeUInt16)]"
      example_context 1]
  by simp

lemma find_makeResultBlock:
  "find (\<lambda>col. P (type col)) (makeResultBlock rc) =
     map_option (\<lambda>nm. \<lparr>column = None,
                 type = (if isNullable (snd nm) then getNestedType (snd nm) else snd nm),
                 name = fst nm\<rparr>)
       (find (\<lambda>nm. P (if isNullable (snd nm) then getNestedType (snd nm) else snd nm)) rc)"
  unfolding makeResultBlock_map by (induction rc) simp_all

text \<open>
  C6 (amended). The check of line 42 compares type indices, not types. With \<open>fh\<close> and
  \<open>fg\<close> what the has and the get function resolve to on the arguments the constructor
  passes: if the type index of the return type of \<open>fh\<close> is not UInt8, construction fails
  with \<^verbatim>\<open>TYPE_MISMATCH\<close> naming \<open>has\<close>; otherwise, if for some result column the type
  index of the return type of \<open>fg\<close> differs from the type index of the declared type with
  an outer Nullable stripped, construction fails with \<^verbatim>\<open>TYPE_MISMATCH\<close> naming the first
  such column; otherwise a reader is returned.
\<close>

theorem type_check_by_type_index:
  assumes "length src = length rc"
    and "ctx ''dictHas'' = Inr dict_has" and "ctx ''dictGet'' = Inr dict_get"
    and "dict_has (arguments_has d) = Inr fh" and "dict_get (arguments_get d) = Inr fg"
  shows
    "(getTypeId (getReturnType fh) \<noteq> TI_UInt8 \<longrightarrow>
        DictionaryReader_new d src rc ctx ks =
          Inl (TYPE_MISMATCH ''Type mismatch in dictionary reader for: has''))
     \<and> (getTypeId (getReturnType fh) = TI_UInt8 \<longrightarrow>
        (case find (\<lambda>nm. getTypeId (getReturnType fg) \<noteq>
                      getTypeId (if isNullable (snd nm) then getNestedType (snd nm) else snd nm))
                rc of
           Some nm \<Rightarrow>
             DictionaryReader_new d src rc ctx ks =
               Inl (TYPE_MISMATCH (''Type mismatch in dictionary reader for: '' @ fst nm))
         | None \<Rightarrow> (\<exists>this. DictionaryReader_new d src rc ctx ks = Inr this)))"
  unfolding DictionaryReader_new_resolved [OF assms]
    find_makeResultBlock [of "\<lambda>t. getTypeId (getReturnType fg) \<noteq> getTypeId t"]
  by (simp split: option.splits)

theorem type_check_by_type_index_witness:
  "DictionaryReader_new ''d'' [''name'', ''age'']
      [(''name'', DataTypeNullable DataTypeString), (''age'', DataTypeUInt16)]
      example_context 1 =
     Inl (TYPE_MISMATCH ''Type mismatch in dictionary reader for: age'')"
proof -
  let ?has = "\<lparr>getReturnType = DataTypeUInt8, prepare = (\<lambda>block args result. example_has)\<rparr>"
  let ?get = "\<lparr>getReturnType = DataTypeString, prepare = (\<lambda>block args result. example_get)\<rparr>"
  have 1: "length [''name'', ''age''] =
      length [(''name'', DataTypeNullable DataTypeString), (''age'', DataTypeUInt16)]"
    by simp
  have 2: "example_context ''dictHas'' = Inr (\<lambda>arguments. Inr ?has)"
    by (simp add: example_context_def dict_context_def)
  have 3: "example_context ''dictGet'' = Inr (\<lambda>arguments. Inr ?get)"
    by (simp add: example_context_def dict_context_def)
  have 4: "(\<lambda>arguments. Inr ?has) (arguments_has ''d'') = Inr ?has" by simp
  have 5: "(\<lambda>arguments. Inr ?get) (arguments_get ''d'') = Inr ?get" by simp
  from type_check_by_type_index [OF 1 2 3 4 5, where ks = 1]
  show ?thesis by simp
qed

text \<open>
  The claim as stated asks for equal types. A dictionary of Decimal32(4) prices read into a
  column declared Decimal32(2): the resolved type differs from the declared type, the type
  indices agree, and construction succeeds.
\<close>

theorem type_mismatch_undetected:
  "map_sum id (\<lambda>resolver. map_sum id getReturnType (resolver (arguments_get ''prices'')))
      (price_context ''dictGet'') = Inr (Inr (DataTypeDecimal32 4))
   \<and> DataTypeDecimal32 4 \<noteq> DataTypeDecimal32 2
   \<and> \<not> isl (DictionaryReader_new ''prices'' [''price''] [(''price'', DataTypeDecimal32 2)]
              price_context 1)"
  by (simp add: DictionaryReader_new_def price_context_def dict_context_def
      FunctionWrapper_new_def makeResultBlock_map Let_def)

subsection \<open>The position map\<close>

lemma positions_loop_inv:
  "i \<le> n \<Longrightarrow> n \<le> length found \<Longrightarrow> length ps = n \<Longrightarrow>
   \<exists>ps'. positions_loop found n i pos ps = Inr ps' \<and> length ps' = n \<and>
     (\<forall>k<n. ps' ! k =
        (if k < i then ps ! k
         else if found ! k \<noteq> 0 then pos + length (filter (\<lambda>j. found ! j \<noteq> 0) [i..<k])
         else ps ! k))"
proof (induction found n i pos ps rule: positions_loop.induct)
  case (1 found n i pos ps)
  show ?case
  proof (cases "i < n")
    case False
    with "1.prems" show ?thesis
      by (subst positions_loop.simps) simp
  next
    case True
    then have il: "i < length found" using "1.prems" by simp
    have upt: "[i..<k] = i # [i + 1..<k]" if "i < k" for k
      using that by (simp add: upt_conv_Cons)
    show ?thesis
    proof (cases "found ! i \<noteq> 0")
      case yes: True
      from "1.IH"(1) [OF True il yes] "1.prems" True
      obtain ps' where r: "positions_loop found n (i + 1) (pos + 1) (ps[i := pos]) = Inr ps'"
        and l: "length ps' = n"
        and v: "\<forall>k<n. ps' ! k =
          (if k < i + 1 then ps[i := pos] ! k
           else if found ! k \<noteq> 0
             then pos + 1 + length (filter (\<lambda>j. found ! j \<noteq> 0) [i + 1..<k])
             else ps[i := pos] ! k)"
        by auto
      have "positions_loop found n i pos ps = Inr ps'"
        using True il yes r by (subst positions_loop.simps) simp
      moreover have "ps' ! k =
        (if k < i then ps ! k
         else if found ! k \<noteq> 0 then pos + length (filter (\<lambda>j. found ! j \<noteq> 0) [i..<k])
         else ps ! k)" if "k < n" for k
      proof -
        consider "k < i" | "k = i" | "i < k" by linarith
        then show ?thesis
        proof cases
          case 1 with v that show ?thesis by simp
        next
          case 2 with v that yes "1.prems" show ?thesis by simp
        next
          case 3 with v that yes upt [OF 3] show ?thesis by simp
        qed
      qed
      ultimately show ?thesis using l by blast
    next
      case no: False
      from "1.IH"(2) [OF True il no] "1.prems" True
      obtain ps' where r: "positions_loop found n (i + 1) pos ps = Inr ps'"
        and l: "length ps' = n"
        and v: "\<forall>k<n. ps' ! k =
          (if k < i + 1 then ps ! k
           else if found ! k \<noteq> 0
             then pos + length (filter (\<lambda>j. found ! j \<noteq> 0) [i + 1..<k])
             else ps ! k)"
        by auto
      have "positions_loop found n i pos ps = Inr ps'"
        using True il no r by (subst positions_loop.simps) simp
      moreover have "ps' ! k =
        (if k < i then ps ! k
         else if found ! k \<noteq> 0 then pos + length (filter (\<lambda>j. found ! j \<noteq> 0) [i..<k])
         else ps ! k)" if "k < n" for k
      proof -
        consider "k < i" | "k = i" | "i < k" by linarith
        then show ?thesis
        proof cases
          case 1 with v that show ?thesis by simp
        next
          case 2 with v that no show ?thesis by simp
        next
          case 3 with v that no upt [OF 3] show ?thesis by simp
        qed
      qed
      ultimately show ?thesis using l by blast
    qed
  qed
qed

lemma count_take:
  "k \<le> length found \<Longrightarrow>
     length (filter (\<lambda>j. found ! j \<noteq> 0) [0..<k]) = countBytesInFilter (take k found)"
proof -
  assume k: "k \<le> length found"
  then have "take k found = map ((!) found) [0..<k]"
    by (simp add: list_eq_iff_nth_eq)
  then show ?thesis
    by (simp add: countBytesInFilter_def filter_map comp_def)
qed

lemma count_take_Suc:
  "k < length found \<Longrightarrow>
     countBytesInFilter (take (Suc k) found) =
       countBytesInFilter (take k found) + (if found ! k \<noteq> 0 then 1 else 0)"
  by (simp add: countBytesInFilter_def take_Suc_conv_app_nth)

lemma count_take_mono:
  "i \<le> j \<Longrightarrow> countBytesInFilter (take i found) \<le> countBytesInFilter (take j found)"
proof -
  assume "i \<le> j"
  then have "take j found = take i found @ take (j - i) (drop i found)"
    by (metis le_add_diff_inverse take_add)
  then show ?thesis by (simp add: countBytesInFilter_def)
qed

lemma count_take_image:
  "n \<le> length found \<Longrightarrow>
     (\<lambda>i. countBytesInFilter (take i found)) ` {i. i < n \<and> found ! i \<noteq> 0} =
       {0 ..< countBytesInFilter (take n found)}"
proof (induction n)
  case 0
  then show ?case by (simp add: countBytesInFilter_def)
next
  case (Suc n)
  then have n: "n < length found" and ih:
    "(\<lambda>i. countBytesInFilter (take i found)) ` {i. i < n \<and> found ! i \<noteq> 0} =
       {0 ..< countBytesInFilter (take n found)}" by simp_all
  show ?case
  proof (cases "found ! n \<noteq> 0")
    case True
    then have "{i. i < Suc n \<and> found ! i \<noteq> 0} = insert n {i. i < n \<and> found ! i \<noteq> 0}"
      by (auto simp: less_Suc_eq)
    then show ?thesis
      using ih True count_take_Suc [OF n] by (auto simp: atLeast0_lessThan_Suc)
  next
    case False
    then have "{i. i < Suc n \<and> found ! i \<noteq> 0} = {i. i < n \<and> found ! i \<noteq> 0}"
      by (auto simp: less_Suc_eq)
    then show ?thesis
      using ih False count_take_Suc [OF n] by simp
  qed
qed

text \<open>
  The scan of lines 140-145 by itself: for a found mask of length \<open>N\<close> it returns a
  position map of length \<open>N\<close> whatever the caller's vector held before, a found row gets
  the number of found rows before it, a row that is not found keeps 0, found rows get
  increasing positions in input order, and the positions of the found rows are exactly
  \<open>0 ..< countFound\<close>.
\<close>

lemma positions_scan:
  assumes "length found = N"
  shows "\<exists>positions. make_positions old found N = Inr positions
     \<and> length positions = N
     \<and> (\<forall>i<N. positions ! i =
          (if found ! i \<noteq> 0 then countBytesInFilter (take i found) else 0))
     \<and> (\<forall>i<N. \<forall>j<N. i < j \<and> found ! i \<noteq> 0 \<and> found ! j \<noteq> 0
          \<longrightarrow> positions ! i < positions ! j)
     \<and> (\<lambda>i. positions ! i) ` {i. i < N \<and> found ! i \<noteq> 0} = {0 ..< countBytesInFilter found}"
proof -
  from positions_loop_inv [of 0 N found "resize [] N 0" 0] assms
  obtain ps where r: "positions_loop found N 0 0 (resize [] N 0) = Inr ps"
    and l: "length ps = N"
    and v: "\<forall>k<N. ps ! k =
        (if found ! k \<noteq> 0 then length (filter (\<lambda>j. found ! j \<noteq> 0) [0..<k])
         else resize [] N 0 ! k)"
    by (auto simp: resize_def)
  have val: "ps ! i = (if found ! i \<noteq> 0 then countBytesInFilter (take i found) else 0)"
    if "i < N" for i
    using v that assms count_take [of i found] by (simp add: resize_def)
  have mono: "ps ! i < ps ! j"
    if "i < N" "j < N" "i < j" "found ! i \<noteq> 0" "found ! j \<noteq> 0" for i j
  proof -
    have "countBytesInFilter (take (Suc i) found) \<le> countBytesInFilter (take j found)"
      using that by (intro count_take_mono) simp
    moreover have "countBytesInFilter (take (Suc i) found) = countBytesInFilter (take i found) + 1"
      using that assms count_take_Suc [of i found] by simp
    ultimately show ?thesis using val that by simp
  qed
  have "(\<lambda>i. ps ! i) ` {i. i < N \<and> found ! i \<noteq> 0} =
        (\<lambda>i. countBytesInFilter (take i found)) ` {i. i < N \<and> found ! i \<noteq> 0}"
    by (rule image_cong) (auto simp: val)
  also have "\<dots> = {0 ..< countBytesInFilter (take N found)}"
    using count_take_image [of N found] assms by simp
  finally have img: "(\<lambda>i. ps ! i) ` {i. i < N \<and> found ! i \<noteq> 0} = {0 ..< countBytesInFilter found}"
    using assms by simp
  have "make_positions old found N = Inr ps"
    using r by (simp add: make_positions_def)
  then show ?thesis using l val mono img by blast
qed

lemma positions_scan_example:
  "length [1, 0, 1, 0, 0 :: 8 word] = 5 \<and>
   make_positions [7, 7] [1, 0, 1, 0, 0] 5 = Inr [0, 0, 1, 0, 0]"
proof -
  have h: "length [1, 0, 1, 0, 0 :: 8 word] = 5" by simp
  from positions_scan [OF h, of "[7, 7]"]
  obtain ps where r: "make_positions [7, 7] [1, 0, 1, 0, 0] 5 = Inr ps"
    and l: "length ps = 5"
    and v: "\<forall>i<5. ps ! i =
      (if [1, 0, 1, 0, 0 :: 8 word] ! i \<noteq> 0
       then countBytesInFilter (take i [1, 0, 1, 0, 0]) else 0)"
    by blast
  have "ps ! 0 = 0" "ps ! 1 = 0" "ps ! 2 = 1" "ps ! 3 = 0" "ps ! 4 = 0"
    using v by (simp_all add: countBytesInFilter_def)
  then have "ps = [0, 0, 1, 0, 0]"
    using l by (simp add: list_eq_iff_nth_eq less_Suc_eq numeral_eq_Suc)
  then show ?thesis using r by simp
qed


subsection \<open>The result columns of the sample block\<close>

text \<open>
  The constructor of \<^verbatim>\<open>FunctionWrapper\<close> takes \<^verbatim>\<open>block.columns()\<close> as the result position
  and inserts no column, so every function of a constructed reader has the same result
  position, the size of the sample block, and \<^verbatim>\<open>readKeys\<close> on a constructed reader
  never gets past line 133. On the reader that line 169 describes, \<^verbatim>\<open>readKeys\<close> returns
  the result of the spec's end-to-end scenario.
\<close>

lemma make_functions_get_result_pos:
  "make_functions_get r a block ks kp header i = Inr fws \<Longrightarrow>
     length fws = length header \<and> list_all (\<lambda>fw. result_pos fw = columns block) fws"
proof (induction header arbitrary: i fws)
  case Nil
  then show ?case by simp
next
  case (Cons col header)
  then show ?case
    by (auto simp: Let_def FunctionWrapper_new_def split: sum.splits if_splits)
qed

lemma length_makeResultBlock: "length (makeResultBlock names) = length names"
  by (simp add: makeResultBlock_map)

lemma constructed_reader:
  assumes "DictionaryReader_new d src rc ctx ks = Inr this"
  shows "length src = length rc"
    and "result_header this = makeResultBlock rc"
    and "sample_block this = make_sample_block d src"
    and "key_position this = size_t_add ks (length rc)"
    and "result_pos (function_has this) = length src + 2"
    and "arg_positions (function_has this) = [0, size_t_add ks (length rc)]"
    and "length (functions_get this) = length rc"
    and "list_all (\<lambda>fw. result_pos fw = length src + 2) (functions_get this)"
  using assms
  by (auto simp: DictionaryReader_new_def Let_def FunctionWrapper_new_def
      columns_makeResultBlock columns_make_sample_block length_makeResultBlock
      split: sum.splits if_splits dest!: make_functions_get_result_pos)

lemma readKeys_constructed:
  assumes "DictionaryReader_new d src rc ctx ks = Inr this"
  shows "readKeys this keys n refs = Inl OUT_OF_BOUNDS"
proof -
  note c = constructed_reader [OF assms]
  have len: "length (sample_block this) = length src + 2"
    using c(3) columns_make_sample_block [of d src] by (simp add: columns_def)
  obtain out_block found positions where refs: "refs = (out_block, found, positions)"
    by (cases refs) auto
  show ?thesis
  proof (cases "key_position this < length (sample_block this)")
    case False
    then show ?thesis
      by (simp add: readKeys_def refs set_keys_def getByPosition_def)
  next
    case True
    then have "set_keys (sample_block this) (key_position this) keys n =
        Inr ((sample_block this)[key_position this :=
               (sample_block this ! key_position this)\<lparr>column := Some (cloneResized keys n)\<rparr>])"
      by (simp add: set_keys_def getByPosition_def)
    moreover have "execute (function_has this) wb n = Inl OUT_OF_BOUNDS"
      if "length wb = length (sample_block this)" for wb
      using that c(5) len by (simp add: execute_def invoke_def columns_def)
    ultimately show ?thesis
      by (simp add: readKeys_def refs)
  qed
qed

lemma described_reader_positions:
  "make_positions [] [1, 0, 1, 0, 0] 5 = Inr [0, 0, 1, 0, 0]"
  by code_simp

lemma described_reader_readKeys:
  "readKeys described_reader (ColumnUInt64 [10, 11, 12, 13, 14]) 5 ([], [], []) =
     Inr ([\<lparr>column = Some (ColumnString [''Alice'', ''Bob'']), type = DataTypeString,
            name = ''name''\<rparr>,
           \<lparr>column = Some (ColumnString [''Paris'', ''Rome'']), type = DataTypeString,
            name = ''city''\<rparr>],
          [1, 0, 1, 0, 0], [0, 0, 1, 0, 0])"
  by (simp add: readKeys_def described_reader_def make_sample_block_eq makeResultBlock_map
      set_keys_def getByPosition_def execute_def invoke_def columns_def extract_has_def
      described_reader_positions filter_keys_def cloneEmpty_def resize_def size_t_add_def
      filter_rows_def example_dictionary_def dict_name_arg_def key_arg_def Let_def
      upt_rec [of 0] upt_rec [of 1] upt_rec [of 2])

lemma example_reader_one:
  "\<exists>this. DictionaryReader_new ''d'' [''name''] [(''name'', DataTypeString)]
      example_context 1 = Inr this"
  by (simp add: DictionaryReader_new_def example_context_def dict_context_def
      FunctionWrapper_new_def makeResultBlock_map make_sample_block_eq columns_def Let_def)

text \<open>
  C3 (the code differs). The claim gives the has function and each get function a column
  of its own in the working block. For the attributes \<open>name\<close> and \<open>city\<close> of the example
  dictionary the sample block has 4 columns, at the positions 0 to 3, and the result
  position of the has function and of both get functions is 4: one position for all
  three, and no column of the block.
\<close>

theorem result_positions_coincide:
  "map_sum id (\<lambda>this. (columns (sample_block this), result_pos (function_has this),
                        map result_pos (functions_get this)))
     (DictionaryReader_new ''d'' [''name'', ''city'']
        [(''name'', DataTypeString), (''city'', DataTypeString)] example_context 1) =
   Inr (4, 4, [4, 4])"
  by (simp add: DictionaryReader_new_def example_context_def dict_context_def
      FunctionWrapper_new_def makeResultBlock_map make_sample_block_eq columns_def Let_def)

text \<open>
  C4 (the code differs). The claim has \<^verbatim>\<open>readKeys\<close> return a found mask and a position
  map of the length of the key batch. On the constructed reader and the five keys of the
  spec's scenario, \<^verbatim>\<open>readKeys\<close> returns nothing: the has function is executed with a
  result position that is not in the working block.
\<close>

theorem found_mask_not_returned:
  "map_sum id (\<lambda>this. readKeys this (ColumnUInt64 [10, 11, 12, 13, 14]) 5 ([], [], []))
     (DictionaryReader_new ''d'' [''name'', ''city'']
        [(''name'', DataTypeString), (''city'', DataTypeString)] example_context 1) =
   Inr (Inl OUT_OF_BOUNDS)"
proof -
  have "\<exists>this. DictionaryReader_new ''d'' [''name'', ''city'']
        [(''name'', DataTypeString), (''city'', DataTypeString)] example_context 1 = Inr this"
    by (simp add: DictionaryReader_new_def example_context_def dict_context_def
      FunctionWrapper_new_def makeResultBlock_map make_sample_block_eq columns_def Let_def)
  then obtain this where t: "DictionaryReader_new ''d'' [''name'', ''city'']
        [(''name'', DataTypeString), (''city'', DataTypeString)] example_context 1 = Inr this"
    by blast
  show ?thesis
    unfolding t by (simp add: readKeys_constructed [OF t])
qed

text \<open>
  C7 (the code differs). The claim has \<^verbatim>\<open>readKeys\<close> succeed on the empty key batch. On a
  constructed reader and no keys, \<^verbatim>\<open>readKeys\<close> fails as it does on every batch.
\<close>

theorem empty_batch_fails:
  "map_sum id (\<lambda>this. readKeys this (ColumnUInt64 []) 0 ([], [], []))
     (DictionaryReader_new ''d'' [''name''] [(''name'', DataTypeString)] example_context 1) =
   Inr (Inl OUT_OF_BOUNDS)"
proof -
  from example_reader_one obtain this where
    t: "DictionaryReader_new ''d'' [''name''] [(''name'', DataTypeString)] example_context 1 =
          Inr this"
    by blast
  show ?thesis
    unfolding t by (simp add: readKeys_constructed [OF t])
qed

text \<open>
  C10 (the code differs). The claim has the extraction of the has result never fail
  after a successful construction. On a constructed reader for one attribute the has
  position \<^verbatim>\<open>key_position + 1\<close> is 3 and the sample block has 3 columns, so there is no
  column at the has position and \<^verbatim>\<open>readKeys\<close> fails before the cast.
\<close>

theorem has_slot_missing:
  "map_sum id
     (\<lambda>this. (key_position this + 1, columns (sample_block this),
               getByPosition (sample_block this) (key_position this + 1),
               readKeys this (ColumnUInt64 [10]) 1 ([], [], [])))
     (DictionaryReader_new ''d'' [''name''] [(''name'', DataTypeString)] example_context 1) =
   Inr (3, 3, Inl OUT_OF_BOUNDS, Inl OUT_OF_BOUNDS)"
proof -
  from example_reader_one obtain this where
    t: "DictionaryReader_new ''d'' [''name''] [(''name'', DataTypeString)] example_context 1 =
          Inr this"
    by blast
  note c = constructed_reader [OF t]
  have "columns (sample_block this) = 3"
    using c(3) columns_make_sample_block [of "''d''" "[''name'']"] by simp
  then show ?thesis
    unfolding t using c(4)
    by (simp add: readKeys_constructed [OF t] getByPosition_def columns_def size_t_add_def)
qed


lemma example_reader_two:
  "\<exists>this. DictionaryReader_new ''d'' [''name'', ''city'']
      [(''name'', DataTypeString), (''city'', DataTypeString)] example_context 1 = Inr this"
  by (simp add: DictionaryReader_new_def example_context_def dict_context_def
      FunctionWrapper_new_def makeResultBlock_map make_sample_block_eq columns_def Let_def)

text \<open>
  C1 (the code differs). The claim has a position map built for every key batch. On a
  constructed reader, two keys and a positions vector that held \<open>[7, 7]\<close>, \<^verbatim>\<open>readKeys\<close>
  fails at the has phase (line 133) and never reaches the scan of lines 140-145: no
  position map is built.
\<close>

theorem position_map_not_built:
  "map_sum id (\<lambda>this. readKeys this (ColumnUInt64 [10, 12]) 2 ([], [], [7, 7]))
     (DictionaryReader_new ''d'' [''name''] [(''name'', DataTypeString)] example_context 1) =
   Inr (Inl OUT_OF_BOUNDS)"
proof -
  from example_reader_one obtain this where
    t: "DictionaryReader_new ''d'' [''name''] [(''name'', DataTypeString)] example_context 1 =
          Inr this"
    by blast
  show ?thesis
    unfolding t by (simp add: readKeys_constructed [OF t])
qed

text \<open>
  C2 (the code differs). The claim has \<^verbatim>\<open>readKeys\<close> return an output batch of
  \<open>countFound\<close> rows with the requested columns. On the constructed reader for the
  string attributes \<open>name\<close> and \<open>city\<close> and the keys 10, 12 and 13, of which the
  dictionary has two, \<^verbatim>\<open>readKeys\<close> returns no output batch: it fails at the has phase,
  before the keys are filtered and before any get function runs.
\<close>

theorem output_batch_not_returned:
  "map_sum id (\<lambda>this. readKeys this (ColumnUInt64 [10, 12, 13]) 3 ([], [], []))
     (DictionaryReader_new ''d'' [''name'', ''city'']
        [(''name'', DataTypeString), (''city'', DataTypeString)] example_context 1) =
   Inr (Inl OUT_OF_BOUNDS)"
proof -
  from example_reader_two obtain this where
    t: "DictionaryReader_new ''d'' [''name'', ''city'']
        [(''name'', DataTypeString), (''city'', DataTypeString)] example_context 1 = Inr this"
    by blast
  show ?thesis
    unfolding t by (simp add: readKeys_constructed [OF t])
qed

subsection \<open>The output header and the filtered keys\<close>

lemma filter_rows_Cons:
  "filter_rows (x # xs) (f # filt) = (if f \<noteq> 0 then [x] else []) @ filter_rows xs filt"
  by (simp add: filter_rows_def)

lemma length_filter_rows:
  "length xs = length filt \<Longrightarrow> length (filter_rows xs filt) = countBytesInFilter filt"
  by (induction xs filt rule: list_induct2) (simp_all add: filter_rows_def countBytesInFilter_def)

lemma filter_rows_nths:
  "length xs = length filt \<Longrightarrow> filter_rows xs filt = nths xs {i. filt ! i \<noteq> 0}"
proof (induction xs filt rule: list_induct2)
  case Nil
  then show ?case by (simp add: filter_rows_def)
next
  case (Cons x xs f filt)
  have "{j. Suc j \<in> {i. (f # filt) ! i \<noteq> 0}} = {i. filt ! i \<noteq> 0}" by simp
  then show ?case
    using Cons.IH by (simp add: filter_rows_Cons nths_Cons)
qed

lemma filter_col_size:
  "size_col keys = length found \<Longrightarrow>
     \<exists>filtered. filter_col keys found = Inr filtered \<and>
       size_col filtered = countBytesInFilter found"
  by (cases keys) (simp_all add: length_filter_rows)

lemma filter_col_UInt64:
  "length xs = length found \<Longrightarrow>
     filter_col (ColumnUInt64 xs) found = Inr (ColumnUInt64 (nths xs {i. found ! i \<noteq> 0}))"
  by (simp add: filter_rows_nths)

lemma cloneEmpty_names: "map name (cloneEmpty block) = map name block"
  by (simp add: cloneEmpty_def comp_def)

lemma cloneEmpty_types: "map type (cloneEmpty block) = map type block"
  by (simp add: cloneEmpty_def comp_def)

lemma example_reader_city:
  "\<exists>this. DictionaryReader_new ''d'' [''city''] [(''city'', DataTypeNullable DataTypeString)]
      example_context 1 = Inr this"
  by (simp add: DictionaryReader_new_def example_context_def dict_context_def
      FunctionWrapper_new_def makeResultBlock_map make_sample_block_eq columns_def Let_def)

text \<open>
  What the parts of \<^verbatim>\<open>readKeys\<close> after the has phase do by themselves. The block that
  line 156 clones for the output has the requested names in the requested order and the
  requested types with an outer Nullable stripped. Lines 148-149, on a working block whose
  key column has as many rows as the found mask has entries, replace the key column by
  its filtered copy of \<open>countFound\<close> rows, for UInt64 keys exactly the rows whose mask entry
  is nonzero, in order.
\<close>

lemma output_header_and_filtered_keys:
  assumes "DictionaryReader_new d src rc ctx ks = Inr this"
    and "getByPosition working_block (key_position this) = Inr key_column"
    and "column key_column = Some keys"
    and "size_col keys = length found"
  shows "map name (cloneEmpty (result_header this)) = map fst rc
    \<and> map type (cloneEmpty (result_header this)) =
        map (\<lambda>nm. if isNullable (snd nm) then getNestedType (snd nm) else snd nm) rc
    \<and> (\<exists>filtered.
          filter_keys working_block (key_position this) found =
            Inr (working_block[key_position this := key_column\<lparr>column := Some filtered\<rparr>],
                 countBytesInFilter found)
          \<and> size_col filtered = countBytesInFilter found
          \<and> (\<forall>xs. keys = ColumnUInt64 xs \<longrightarrow>
                filtered = ColumnUInt64 (nths xs {i. found ! i \<noteq> 0})))"
proof -
  have hdr: "result_header this = makeResultBlock rc"
    using constructed_reader(2) [OF assms(1)] .
  from filter_col_size [OF assms(4)] obtain filtered where
    f: "filter_col keys found = Inr filtered" and s: "size_col filtered = countBytesInFilter found"
    by blast
  have "filter_keys working_block (key_position this) found =
      Inr (working_block[key_position this := key_column\<lparr>column := Some filtered\<rparr>],
           countBytesInFilter found)"
    using assms(2,3) f s by (simp add: filter_keys_def)
  moreover have "filtered = ColumnUInt64 (nths xs {i. found ! i \<noteq> 0})"
    if "keys = ColumnUInt64 xs" for xs
    using that f assms(4) filter_col_UInt64 [of xs found] by simp
  ultimately show ?thesis
    using s by (auto simp: hdr cloneEmpty_names cloneEmpty_types makeResultBlock_map comp_def)
qed

text \<open>
  For a result column declared Nullable(String), the output block's column has the type
  String: \<^verbatim>\<open>makeResultBlock\<close> strips the Nullable.
\<close>

lemma output_types_differ:
  "map_sum id (\<lambda>this. map type (cloneEmpty (result_header this)))
     (DictionaryReader_new ''d'' [''city''] [(''city'', DataTypeNullable DataTypeString)]
        example_context 1) = Inr [DataTypeString]
   \<and> [DataTypeString] \<noteq> map snd [(''city'', DataTypeNullable DataTypeString)]"
  by (simp add: DictionaryReader_new_def example_context_def dict_context_def
      FunctionWrapper_new_def makeResultBlock_map cloneEmpty_def Let_def)

subsection \<open>The objects a call changes\<close>

lemma kept_append:
  assumes "sound s0" "kept s0 s"
    and "st_this s' = st_this s" "st_keys s' = st_keys s"
    and "st_heap s' = st_heap s @ ext"
    and "map (\<lambda>e. (name e, type e)) (st_working_block s') =
         map (\<lambda>e. (name e, type e)) (st_working_block s)"
  shows "kept s0 s'"
  using assms
  by (auto simp: kept_def sound_def list_all_iff nth_append)

lemma shape_update:
  "getByPosition block i = Inr elem \<Longrightarrow>
     map (\<lambda>e. (name e, type e)) (block[i := elem\<lparr>column := c\<rparr>]) =
     map (\<lambda>e. (name e, type e)) block"
  by (auto simp: getByPosition_def list_eq_iff_nth_eq nth_list_update split: if_splits)

lemma shape_update_nth:
  "i < length block \<Longrightarrow>
     map (\<lambda>e. (name e, type e)) (block[i := (block ! i)\<lparr>column := c\<rparr>]) =
     map (\<lambda>e. (name e, type e)) block"
  by (auto simp: list_eq_iff_nth_eq nth_list_update)

lemma kept_copy:
  "kept s0 s \<Longrightarrow> copy_sample_block s = Inr s' \<Longrightarrow> kept s0 s'"
  by (auto simp: kept_def copy_sample_block_def)

lemma kept_set_keys:
  assumes "sound s0" "kept s0 s" "store_set_keys n s = Inr s'"
  shows "kept s0 s'"
proof -
  from assms(3) obtain key_column keys where
    g: "getByPosition (st_working_block s) (key_position (st_this s)) = Inr key_column"
    and s': "s' = s\<lparr>st_heap := st_heap s @ [cloneResized keys n],
                    st_working_block :=
                      (st_working_block s)[key_position (st_this s) :=
                         key_column\<lparr>column := Some (length (st_heap s))\<rparr>]\<rparr>"
    by (auto simp: store_set_keys_def alloc_def split: sum.splits option.splits)
  show ?thesis
    by (rule kept_append [OF assms(1,2), where ext = "[cloneResized keys n]"])
       (simp_all add: s' shape_update [OF g])
qed

lemma kept_execute:
  assumes "sound s0" "kept s0 s" "store_execute fw rows s = Inr s'"
  shows "kept s0 s'"
proof -
  from assms(3) obtain c where
    r: "result_pos fw < length (st_working_block s)"
    and s': "s' = s\<lparr>st_heap := st_heap s @ [c],
                    st_working_block :=
                      (st_working_block s)[result_pos fw :=
                         (st_working_block s ! result_pos fw)
                           \<lparr>column := Some (length (st_heap s))\<rparr>]\<rparr>"
    by (auto simp: store_execute_def alloc_def Let_def columns_def split: sum.splits if_splits)
  show ?thesis
    by (rule kept_append [OF assms(1,2), where ext = "[c]"])
       (simp_all add: s' shape_update_nth [OF r])
qed

lemma kept_execute_all:
  "sound s0 \<Longrightarrow> kept s0 s \<Longrightarrow> store_execute_all funcs s = Inr s' \<Longrightarrow> kept s0 s'"
proof (induction funcs arbitrary: s)
  case Nil
  then show ?case by simp
next
  case (Cons func funcs)
  then show ?case
    by (auto split: sum.splits dest: kept_execute)
qed

lemma kept_positions:
  "kept s0 s \<Longrightarrow> store_positions n s = Inr s' \<Longrightarrow> kept s0 s'"
  by (auto simp: kept_def store_positions_def split: sum.splits)

lemma kept_filter_keys:
  assumes "sound s0" "kept s0 s" "store_filter_keys s = Inr s'"
  shows "kept s0 s'"
proof -
  from assms(3) obtain key_column filtered where
    g: "getByPosition (st_working_block s) (key_position (st_this s)) = Inr key_column"
    and s': "s' = s\<lparr>st_heap := st_heap s @ [filtered],
                    st_working_block :=
                      (st_working_block s)[key_position (st_this s) :=
                         key_column\<lparr>column := Some (length (st_heap s))\<rparr>],
                    st_rows := size_col filtered\<rparr>"
    by (auto simp: store_filter_keys_def alloc_def split: sum.splits option.splits)
  show ?thesis
    by (rule kept_append [OF assms(1,2), where ext = "[filtered]"])
       (simp_all add: s' shape_update [OF g])
qed

lemma store_cloneEmpty_grows:
  "store_cloneEmpty h block = (h', block') \<Longrightarrow> \<exists>ext. h' = h @ ext"
proof (induction block arbitrary: h h' block')
  case Nil
  then show ?case by simp
next
  case (Cons elem block)
  show ?case
  proof (cases "deref h (column elem)")
    case None
    with Cons.prems obtain b where "store_cloneEmpty h block = (h', b)"
      by (auto split: prod.splits)
    then show ?thesis by (rule Cons.IH)
  next
    case (Some c)
    with Cons.prems obtain b where
      "store_cloneEmpty (h @ [cloneResized c 0]) block = (h', b)"
      by (auto simp: alloc_def split: prod.splits)
    from Cons.IH [OF this] show ?thesis by auto
  qed
qed

lemma move_columns_shape:
  "move_columns is first wb ob = Inr (wb', ob') \<Longrightarrow>
     map (\<lambda>e. (name e, type e)) wb' = map (\<lambda>e. (name e, type e)) wb"
proof (induction "is" arbitrary: wb ob)
  case Nil
  then show ?case by simp
next
  case (Cons i rest)
  from Cons.prems obtain src dst where
    g: "getByPosition wb (size_t_add first i) = Inr src"
    and m: "move_columns rest first (wb[size_t_add first i := src\<lparr>column := None\<rparr>])
              (ob[i := dst\<lparr>column := column src\<rparr>]) = Inr (wb', ob')"
    by (auto split: sum.splits)
  from Cons.IH [OF m] shape_update [OF g] show ?case by simp
qed

lemma kept_make_result:
  assumes "sound s0" "kept s0 s" "store_make_result s = Inr s'"
  shows "kept s0 s'"
proof -
  from assms(3) obtain h ob wb' ob' where
    c: "store_cloneEmpty (st_heap s) (result_header (st_this s)) = (h, ob)"
    and m: "move_columns [0 ..< columns ob]
              (size_t_add (size_t_add (key_position (st_this s)) 1) 1)
              (st_working_block s) ob = Inr (wb', ob')"
    and s': "s' = s\<lparr>st_heap := h, st_working_block := wb', st_out_block := ob'\<rparr>"
    by (auto simp: store_make_result_def Let_def split: prod.splits sum.splits)
  from store_cloneEmpty_grows [OF c] obtain ext where h: "h = st_heap s @ ext" by blast
  show ?thesis
    by (rule kept_append [OF assms(1,2), where ext = ext])
       (simp_all add: s' h move_columns_shape [OF m])
qed

lemma pointers_owner:
  "a \<in> set (pointers block) \<Longrightarrow> 0 < owners_in block a"
  by (induction block) (auto simp: pointers_def owners_in_def split: option.splits)

lemma slot_owner:
  "getByPosition block i = Inr elem \<Longrightarrow> column elem = Some a \<Longrightarrow> 0 < owners_in block a"
proof -
  assume "getByPosition block i = Inr elem" "column elem = Some a"
  then have "elem \<in> set block" "column elem = Some a"
    by (auto simp: getByPosition_def split: if_splits)
  then show ?thesis
    by (auto simp: owners_in_def filter_empty_conv)
qed

lemma root_is_shared:
  assumes "a \<in> set (roots s)"
    and "getByPosition (st_working_block s) i = Inr elem" "column elem = Some a"
  shows "1 < use_count s a"
proof -
  have w: "0 < owners_in (st_working_block s) a"
    using assms(2,3) by (rule slot_owner)
  from assms(1) consider "a = st_keys s" | "a \<in> set (pointers (sample_block (st_this s)))"
    | "a \<in> set (pointers (result_header (st_this s)))"
    by (auto simp: roots_def)
  then show ?thesis
  proof cases
    case 1
    with w show ?thesis by (simp add: use_count_def)
  next
    case 2
    from pointers_owner [OF this] w show ?thesis by (simp add: use_count_def)
  next
    case 3
    from pointers_owner [OF this] w show ?thesis by (simp add: use_count_def)
  qed
qed

lemma kept_extract_has:
  assumes "sound s0" "kept s0 s" "store_extract_has s = Inr s'"
  shows "kept s0 s'"
proof -
  let ?hp = "size_t_add (key_position (st_this s)) 1"
  from assms(3) obtain has_column a c found' dropped where
    g: "getByPosition (st_working_block s) ?hp = Inr has_column"
    and col: "column has_column = Some a"
    and d: "deref (st_heap s) (Some a) = Some c"
    and s': "s' = s\<lparr>st_heap :=
                      (if 1 < use_count s a then st_heap s @ [dropped]
                       else (st_heap s)[a := dropped]),
                    st_found := found',
                    st_working_block :=
                      (st_working_block s)[?hp := has_column\<lparr>column := None\<rparr>]\<rparr>"
    by (auto simp: store_extract_has_def Let_def alloc_def
        split: sum.splits option.splits prod.splits if_splits)
  have k: "st_this s = st_this s0" "st_keys s = st_keys s0"
    using assms(2) by (simp_all add: kept_def)
  then have rs: "roots s = roots s0" by (simp add: roots_def)
  show ?thesis
  proof (cases "1 < use_count s a")
    case True
    show ?thesis
    proof (rule kept_append [OF assms(1,2), where ext = "[dropped]"])
      show "st_heap s' = st_heap s @ [dropped]"
        using True by (simp add: s')
      show "map (\<lambda>e. (name e, type e)) (st_working_block s') =
            map (\<lambda>e. (name e, type e)) (st_working_block s)"
        using shape_update [OF g] by (simp add: s')
    qed (simp_all add: s')
  next
    case False
    have notroot: "a \<notin> set (roots s0)"
      using root_is_shared [OF _ g col] False rs by auto
    have "(st_heap s)[a := dropped] ! r = st_heap s ! r" if "r \<in> set (roots s0)" for r
      using that notroot by (cases "a = r") auto
    then have "list_all (\<lambda>r. (st_heap s)[a := dropped] ! r = st_heap s0 ! r) (roots s0)"
      using assms(2) by (auto simp: kept_def list_all_iff)
    then show ?thesis
      using assms(2) False shape_update [OF g] by (simp add: kept_def s')
  qed
qed

lemma kept_then_step:
  assumes "kept s0 (fst r)"
    and "\<And>s s'. kept s0 s \<Longrightarrow> step s = Inr s' \<Longrightarrow> kept s0 s'"
  shows "kept s0 (fst (then_step r step))"
  using assms
  by (cases r) (auto simp: then_step_def split: option.splits sum.splits)

lemma kept_init: "kept s (fst (then_step (s, None) copy_sample_block))"
  by (simp add: kept_def then_step_def copy_sample_block_def list_all_iff)

lemma kept_readKeys_store:
  assumes "sound s"
  shows "kept s (fst (readKeys_store s n))"
  unfolding readKeys_store_def
  by (intro kept_then_step kept_init)
     (auto intro: kept_set_keys kept_execute kept_extract_has kept_positions
         kept_filter_keys kept_execute_all kept_make_result assms)

lemma size_t_add_1_neq: "size_t_add k 1 \<noteq> k"
proof
  assume a: "size_t_add k 1 = k"
  then have "k < 2 ^ 64"
    by (metis size_t_add_def mod_less_divisor zero_less_numeral zero_less_power)
  then have "Suc k mod 2 ^ 64 = (if Suc k = 2 ^ 64 then 0 else Suc k)"
    by (simp add: mod_Suc)
  with a show False
    by (auto simp: size_t_add_def split: if_splits)
qed

lemma then_step_invariant:
  assumes "I (fst r)"
    and "\<And>s s'. I s \<Longrightarrow> step s = Inr s' \<Longrightarrow> I s'"
  shows "I (fst (then_step r step))"
  using assms
  by (cases r) (auto simp: then_step_def split: option.splits sum.splits)

lemma installed_set_slot:
  assumes "installed s0 c s" "length (st_heap s0) < a \<or> i = key_position (st_this s0)"
    and "st_heap s' = st_heap s @ ext"
    and "st_working_block s' = (st_working_block s)[i := elem\<lparr>column := Some a\<rparr>]"
  shows "installed s0 c s'"
proof -
  have "column ((st_working_block s)[i := elem\<lparr>column := Some a\<rparr>] ! j) \<noteq>
          Some (length (st_heap s0))"
    if "j < length (st_working_block s)" "j \<noteq> key_position (st_this s0)" for j
  proof (cases "j = i")
    case True
    with that assms(2) show ?thesis by auto
  next
    case False
    with that assms(1) show ?thesis by (auto simp: installed_def list_all_iff)
  qed
  then show ?thesis
    using assms(1,3,4) by (auto simp: installed_def list_all_iff nth_append)
qed

lemma installed_execute:
  assumes "installed s0 c s" "store_execute fw rows s = Inr s'"
  shows "installed s0 c s'"
proof -
  from assms(2) obtain x where
    s': "s' = s\<lparr>st_heap := st_heap s @ [x],
                    st_working_block :=
                      (st_working_block s)[result_pos fw :=
                         (st_working_block s ! result_pos fw)
                           \<lparr>column := Some (length (st_heap s))\<rparr>]\<rparr>"
    by (auto simp: store_execute_def alloc_def Let_def columns_def split: sum.splits if_splits)
  show ?thesis
    by (rule installed_set_slot [OF assms(1), where ext = "[x]" and a = "length (st_heap s)"
          and i = "result_pos fw" and elem = "st_working_block s ! result_pos fw"])
       (use assms(1) in \<open>simp_all add: s' installed_def\<close>)
qed

lemma installed_execute_all:
  "installed s0 c s \<Longrightarrow> store_execute_all funcs s = Inr s' \<Longrightarrow> installed s0 c s'"
proof (induction funcs arbitrary: s)
  case Nil
  then show ?case by simp
next
  case (Cons func funcs)
  then show ?case
    by (auto split: sum.splits dest: installed_execute)
qed

lemma installed_positions:
  "installed s0 c s \<Longrightarrow> store_positions n s = Inr s' \<Longrightarrow> installed s0 c s'"
  by (auto simp: installed_def store_positions_def split: sum.splits)

lemma installed_filter_keys:
  assumes "installed s0 c s" "st_this s = st_this s0" "store_filter_keys s = Inr s'"
  shows "installed s0 c s'"
proof -
  from assms(3) obtain key_column filtered where
    s': "s' = s\<lparr>st_heap := st_heap s @ [filtered],
                    st_working_block :=
                      (st_working_block s)[key_position (st_this s) :=
                         key_column\<lparr>column := Some (length (st_heap s))\<rparr>],
                    st_rows := size_col filtered\<rparr>"
    by (auto simp: store_filter_keys_def alloc_def split: sum.splits option.splits)
  show ?thesis
    by (rule installed_set_slot [OF assms(1), where ext = "[filtered]"
          and a = "length (st_heap s)" and i = "key_position (st_this s)"
          and elem = key_column])
       (simp_all add: s' assms(2))
qed

lemma installed_extract_has:
  assumes "installed s0 c s" "st_this s = st_this s0" "store_extract_has s = Inr s'"
  shows "installed s0 c s'"
proof -
  let ?hp = "size_t_add (key_position (st_this s)) 1"
  from assms(3) obtain has_column a found' dropped where
    g: "getByPosition (st_working_block s) ?hp = Inr has_column"
    and col: "column has_column = Some a"
    and s': "s' = s\<lparr>st_heap :=
                      (if 1 < use_count s a then st_heap s @ [dropped]
                       else (st_heap s)[a := dropped]),
                    st_found := found',
                    st_working_block :=
                      (st_working_block s)[?hp := has_column\<lparr>column := None\<rparr>]\<rparr>"
    by (auto simp: store_extract_has_def Let_def alloc_def
        split: sum.splits option.splits prod.splits if_splits)
  from g have hp: "?hp < length (st_working_block s)" and hc: "has_column = st_working_block s ! ?hp"
    by (auto simp: getByPosition_def split: if_splits)
  have "?hp \<noteq> key_position (st_this s0)"
    using size_t_add_1_neq [of "key_position (st_this s)"] assms(2) by simp
  then have ne: "a \<noteq> length (st_heap s0)"
    using assms(1) hp hc col by (auto simp: installed_def list_all_iff)
  have slot: "column ((st_working_block s)[?hp := has_column\<lparr>column := None\<rparr>] ! j) \<noteq>
          Some (length (st_heap s0))"
    if "j < length (st_working_block s)" "j \<noteq> key_position (st_this s0)" for j
  proof (cases "j = ?hp")
    case True
    with that show ?thesis by simp
  next
    case False
    with that assms(1) show ?thesis by (auto simp: installed_def list_all_iff)
  qed
  have heap: "length (st_heap s0) < length (st_heap s') \<and> st_heap s' ! length (st_heap s0) = c"
    using assms(1) ne by (auto simp: installed_def s' nth_append)
  show ?thesis
    using slot heap by (auto simp: installed_def s' list_all_iff)
qed

lemma move_columns_length:
  "move_columns is first wb ob = Inr (wb', ob') \<Longrightarrow> length wb' = length wb"
proof (induction "is" arbitrary: wb ob)
  case Nil
  then show ?case by simp
next
  case (Cons i rest)
  from Cons.prems obtain src dst where
    m: "move_columns rest first (wb[size_t_add first i := src\<lparr>column := None\<rparr>])
              (ob[i := dst\<lparr>column := column src\<rparr>]) = Inr (wb', ob')"
    by (auto split: sum.splits)
  from Cons.IH [OF m] show ?case by simp
qed

lemma move_columns_slots:
  "move_columns is first wb ob = Inr (wb', ob') \<Longrightarrow> j < length wb \<Longrightarrow>
     column (wb' ! j) = Some a \<Longrightarrow> column (wb ! j) = Some a"
proof (induction "is" arbitrary: wb ob)
  case Nil
  then show ?case by simp
next
  case (Cons i rest)
  from Cons.prems(1) obtain src dst where
    m: "move_columns rest first (wb[size_t_add first i := src\<lparr>column := None\<rparr>])
              (ob[i := dst\<lparr>column := column src\<rparr>]) = Inr (wb', ob')"
    by (auto split: sum.splits)
  have "column (wb[size_t_add first i := src\<lparr>column := None\<rparr>] ! j) = Some a"
    using Cons.IH [OF m] Cons.prems(2,3) by simp
  then show ?case
    using Cons.prems(2) by (cases "j = size_t_add first i") auto
qed

lemma installed_make_result:
  assumes "installed s0 c s" "store_make_result s = Inr s'"
  shows "installed s0 c s'"
proof -
  from assms(2) obtain h ob wb' ob' where
    ce: "store_cloneEmpty (st_heap s) (result_header (st_this s)) = (h, ob)"
    and m: "move_columns [0 ..< columns ob]
              (size_t_add (size_t_add (key_position (st_this s)) 1) 1)
              (st_working_block s) ob = Inr (wb', ob')"
    and s': "s' = s\<lparr>st_heap := h, st_working_block := wb', st_out_block := ob'\<rparr>"
    by (auto simp: store_make_result_def Let_def split: prod.splits sum.splits)
  from store_cloneEmpty_grows [OF ce] obtain ext where h: "h = st_heap s @ ext" by blast
  have l: "length wb' = length (st_working_block s)"
    using move_columns_length [OF m] .
  have "column (wb' ! j) \<noteq> Some (length (st_heap s0))"
    if "j < length (st_working_block s)" "j \<noteq> key_position (st_this s0)" for j
    using move_columns_slots [OF m that(1)] assms(1) that
    by (auto simp: installed_def list_all_iff)
  then show ?thesis
    using assms(1) l by (auto simp: installed_def s' h list_all_iff nth_append)
qed

lemma slot_pointer:
  "i < length block \<Longrightarrow> column (block ! i) = Some a \<Longrightarrow> a \<in> set (pointers block)"
  by (force simp: pointers_def in_set_conv_nth)

lemma readKeys_store_installs:
  assumes "sound s" "key_position (st_this s) < columns (sample_block (st_this s))"
  shows "installed s (cloneResized (st_heap s ! st_keys s) n) (fst (readKeys_store s n))
       \<and> kept s (fst (readKeys_store s n))"
proof -
  let ?c = "cloneResized (st_heap s ! st_keys s) n"
  let ?kp = "key_position (st_this s)"
  let ?s2 = "s\<lparr>st_heap := st_heap s @ [?c],
               st_working_block :=
                 (sample_block (st_this s))[?kp :=
                    (sample_block (st_this s) ! ?kp)\<lparr>column := Some (length (st_heap s))\<rparr>]\<rparr>"
  have keys: "st_keys s < length (st_heap s)"
    using assms(1) by (simp add: sound_def roots_def)
  have r2: "then_step (then_step (s, None) copy_sample_block) (store_set_keys n) = (?s2, None)"
    using assms(2) keys
    by (simp add: then_step_def copy_sample_block_def store_set_keys_def getByPosition_def
        columns_def deref_def alloc_def)
  have ptr: "a < length (st_heap s)"
    if "i < length (sample_block (st_this s))" "column (sample_block (st_this s) ! i) = Some a"
    for i a
    using slot_pointer [OF that] assms(1) by (auto simp: sound_def roots_def list_all_iff)
  have "column ((sample_block (st_this s))[?kp :=
            (sample_block (st_this s) ! ?kp)\<lparr>column := Some (length (st_heap s))\<rparr>] ! j) \<noteq>
          Some (length (st_heap s))"
    if "j < length (sample_block (st_this s))" "j \<noteq> ?kp" for j
    using that ptr [OF that(1)] by auto
  then have i2: "installed s ?c ?s2"
    by (auto simp: installed_def list_all_iff)
  have k2: "kept s ?s2"
    using kept_then_step [OF kept_init, of s "store_set_keys n"] kept_set_keys [OF assms(1)] r2
    by (metis fst_conv)
  let ?I = "\<lambda>s'. installed s ?c s' \<and> kept s s'"
  have this_kept: "st_this s' = st_this s" if "kept s s'" for s'
    using that by (simp add: kept_def)
  have "?I (fst (readKeys_store s n))"
    unfolding readKeys_store_def r2
    by (intro then_step_invariant [where I = ?I])
       (auto simp: i2 k2 this_kept
         intro: installed_execute installed_extract_has installed_positions
           installed_filter_keys installed_execute_all installed_make_result
           kept_execute kept_extract_has kept_positions kept_filter_keys kept_execute_all
           kept_make_result assms(1))
  then show ?thesis .
qed

lemma store_block_length:
  "store_block h block = (h', block') \<Longrightarrow> length block' = length block"
proof (induction block arbitrary: h h' block')
  case Nil
  then show ?case by simp
next
  case (Cons elem block)
  show ?case
  proof (cases "column elem")
    case None
    with Cons.prems obtain b where "store_block h block = (h', b)" "block' = \<lparr>column = None, type = type elem, name = name elem\<rparr> # b"
      by (auto split: prod.splits)
    with Cons.IH show ?thesis by auto
  next
    case (Some c)
    with Cons.prems obtain b where "store_block (h @ [c]) block = (h', b)"
      "block' = \<lparr>column = Some (length h), type = type elem, name = name elem\<rparr> # b"
      by (auto simp: alloc_def split: prod.splits)
    with Cons.IH show ?thesis by auto
  qed
qed

lemma readKeys_store_constructed:
  assumes "DictionaryReader_new d src rc ctx ks = Inr this"
  shows "snd (readKeys_store (call_of this keys) n) = Some OUT_OF_BOUNDS"
proof -
  note c = constructed_reader [OF assms]
  let ?s = "call_of this keys"
  obtain h1 header where 1: "store_block [] (result_header this) = (h1, header)"
    by (cases "store_block [] (result_header this)")
  obtain h2 sample where 2: "store_block h1 (sample_block this) = (h2, sample)"
    by (cases "store_block h1 (sample_block this)")
  have s: "?s = \<lparr>st_heap = h2 @ [keys],
      st_this = \<lparr>result_header = header, sample_block = sample,
                  key_position = key_position this, function_has = function_has this,
                  functions_get = functions_get this\<rparr>,
      st_keys = length h2, st_out_block = [], st_found = [], st_positions = [],
      st_working_block = [], st_rows = 0\<rparr>"
    by (simp add: call_of_def store_reader_def 1 2 alloc_def)
  have len: "length sample = length src + 2"
    using store_block_length [OF 2] c(3)
      columns_make_sample_block [of d src] by (simp add: columns_def)
  show ?thesis
  proof (cases "key_position this < length sample")
    case False
    then show ?thesis
      by (simp add: readKeys_store_def s then_step_def copy_sample_block_def
          store_set_keys_def getByPosition_def)
  next
    case True
    then show ?thesis
      using c(5) len
      by (simp add: readKeys_store_def s then_step_def copy_sample_block_def
          store_set_keys_def getByPosition_def deref_def alloc_def store_execute_def
          columns_def Let_def)
  qed
qed


lemma store_block_pointers:
  "store_block h block = (h', block') \<Longrightarrow>
     length h \<le> length h' \<and> list_all (\<lambda>a. a < length h') (pointers block')"
proof (induction block arbitrary: h h' block')
  case Nil
  then show ?case by (simp add: pointers_def)
next
  case (Cons elem block)
  show ?case
  proof (cases "column elem")
    case None
    with Cons.prems obtain b where "store_block h block = (h', b)"
      "block' = \<lparr>column = None, type = type elem, name = name elem\<rparr> # b"
      by (auto split: prod.splits)
    with Cons.IH [of h h' b] show ?thesis by (auto simp: pointers_def)
  next
    case (Some c)
    with Cons.prems obtain b where "store_block (h @ [c]) block = (h', b)"
      "block' = \<lparr>column = Some (length h), type = type elem, name = name elem\<rparr> # b"
      by (auto simp: alloc_def split: prod.splits)
    with Cons.IH [of "h @ [c]" h' b] show ?thesis by (auto simp: pointers_def)
  qed
qed

lemma sound_call_of: "sound (call_of reader keys)"
proof -
  obtain h1 header where 1: "store_block [] (result_header reader) = (h1, header)"
    by (cases "store_block [] (result_header reader)")
  obtain h2 sample where 2: "store_block h1 (sample_block reader) = (h2, sample)"
    by (cases "store_block h1 (sample_block reader)")
  from store_block_pointers [OF 1] store_block_pointers [OF 2]
  show ?thesis
    by (auto simp: sound_def roots_def call_of_def store_reader_def 1 2 alloc_def
        list_all_iff)
qed

subsection \<open>The two readings of readKeys\<close>

text \<open>
  Every step of \<^verbatim>\<open>readKeys\<close> on a call state does to the objects what the step of
  \<^verbatim>\<open>readKeys\<close> on values does to the columns the pointers hold, so the two readings have
  the same outcome: the same exception, or the same output block, found mask and position
  map.
\<close>

lemma valid_slot:
  "valid h block \<Longrightarrow> i < length block \<Longrightarrow> column (block ! i) = Some a \<Longrightarrow> a < length h"
  using slot_pointer [of i block a] by (auto simp: valid_def list_all_iff)

lemma valid_iff:
  "valid h block = (\<forall>i<length block. \<forall>a. column (block ! i) = Some a \<longrightarrow> a < length h)"
proof
  assume "valid h block"
  then show "\<forall>i<length block. \<forall>a. column (block ! i) = Some a \<longrightarrow> a < length h"
    using valid_slot by blast
next
  assume r: "\<forall>i<length block. \<forall>a. column (block ! i) = Some a \<longrightarrow> a < length h"
  have "a < length h" if "a \<in> set (pointers block)" for a
  proof -
    from that obtain elem where "elem \<in> set block" "column elem = Some a"
      by (auto simp: pointers_def split: option.splits)
    then show ?thesis using r by (auto simp: in_set_conv_nth)
  qed
  then show "valid h block" by (simp add: valid_def list_all_iff)
qed

lemma length_load_block [simp]: "length (load_block h block) = length block"
  by (simp add: load_block_def)

lemma nth_load_block:
  "i < length block \<Longrightarrow>
     load_block h block ! i =
       \<lparr>column = deref h (column (block ! i)), type = type (block ! i), name = name (block ! i)\<rparr>"
  by (simp add: load_block_def)

lemma load_block_cong:
  "(\<And>i. i < length block \<Longrightarrow> deref h' (column (block ! i)) = deref h (column (block ! i)))
     \<Longrightarrow> load_block h' block = load_block h block"
  by (simp add: list_eq_iff_nth_eq nth_load_block)

lemma deref_append:
  "valid h block \<Longrightarrow> i < length block \<Longrightarrow>
     deref (h @ ext) (column (block ! i)) = deref h (column (block ! i))"
  using valid_slot [of h block i]
  by (cases "column (block ! i)") (auto simp: deref_def nth_append)

lemma load_block_append:
  "valid h block \<Longrightarrow> load_block (h @ ext) block = load_block h block"
  by (rule load_block_cong) (rule deref_append)

lemma load_block_update:
  "load_block h (block[i := elem]) =
     (load_block h block)[i := \<lparr>column = deref h (column elem), type = type elem,
                                 name = name elem\<rparr>]"
  by (simp add: load_block_def map_update)

lemma getByPosition_load:
  "getByPosition (load_block h block) i =
     map_sum id (\<lambda>elem. \<lparr>column = deref h (column elem), type = type elem, name = name elem\<rparr>)
       (getByPosition block i)"
  by (simp add: getByPosition_def nth_load_block)

lemma valid_append: "valid h block \<Longrightarrow> valid (h @ ext) block"
  by (auto simp: valid_def list_all_iff)

lemma valid_set_slot:
  assumes "valid h wb" "a < length h"
  shows "valid h (wb[i := e\<lparr>column := Some a\<rparr>])"
  unfolding valid_iff
proof (intro allI impI)
  fix j b
  assume j: "j < length (wb[i := e\<lparr>column := Some a\<rparr>])"
    and c: "column (wb[i := e\<lparr>column := Some a\<rparr>] ! j) = Some b"
  show "b < length h"
  proof (cases "j = i")
    case True
    with j c assms(2) show ?thesis by simp
  next
    case False
    with j c valid_slot [OF assms(1), of j b] show ?thesis by simp
  qed
qed

lemma valid_null_slot:
  assumes "valid h wb"
  shows "valid h (wb[i := e\<lparr>column := None\<rparr>])"
  unfolding valid_iff
proof (intro allI impI)
  fix j b
  assume j: "j < length (wb[i := e\<lparr>column := None\<rparr>])"
    and c: "column (wb[i := e\<lparr>column := None\<rparr>] ! j) = Some b"
  show "b < length h"
  proof (cases "j = i")
    case True
    with j c show ?thesis by simp
  next
    case False
    with j c valid_slot [OF assms(1), of j b] show ?thesis by simp
  qed
qed

lemma load_set_fresh:
  assumes "valid h wb"
  shows "load_block (h @ [c]) (wb[i := e\<lparr>column := Some (length h)\<rparr>]) =
     (load_block h wb)[i := \<lparr>column = Some c, type = type e, name = name e\<rparr>]"
  by (simp add: load_block_update load_block_append [OF assms] deref_def)

lemma sim_set_keys:
  assumes "valid (st_heap s) (st_working_block s)" "st_keys s < length (st_heap s)"
  shows "set_keys (load_block (st_heap s) (st_working_block s)) (key_position (st_this s))
           (st_heap s ! st_keys s) n =
         map_sum id (\<lambda>s'. load_block (st_heap s') (st_working_block s')) (store_set_keys n s)"
  using assms
  by (auto simp: set_keys_def store_set_keys_def getByPosition_load deref_def alloc_def
      load_set_fresh split: sum.splits)

lemma valid_set_keys:
  assumes "valid (st_heap s) (st_working_block s)" "store_set_keys n s = Inr s'"
  shows "valid (st_heap s') (st_working_block s')"
proof -
  from assms(2) obtain e c where
    s': "s' = s\<lparr>st_heap := st_heap s @ [c],
                  st_working_block :=
                    (st_working_block s)[key_position (st_this s) :=
                       e\<lparr>column := Some (length (st_heap s))\<rparr>]\<rparr>"
    by (auto simp: store_set_keys_def alloc_def split: sum.splits option.splits)
  show ?thesis
    unfolding s' using valid_set_slot [OF valid_append [OF assms(1), of "[c]"]]
    by simp
qed

lemma sim_execute:
  assumes "valid (st_heap s) (st_working_block s)"
  shows "execute fw (load_block (st_heap s) (st_working_block s)) rows =
         map_sum id (\<lambda>s'. load_block (st_heap s') (st_working_block s'))
           (store_execute fw rows s)"
proof (cases "list_all (\<lambda>p. p < length (st_working_block s)) (arg_positions fw) \<and>
              result_pos fw < length (st_working_block s)")
  case False
  then show ?thesis
    by (auto simp: execute_def invoke_def store_execute_def columns_def Let_def)
next
  case True
  then have args: "map (\<lambda>p. column (load_block (st_heap s) (st_working_block s) ! p))
        (arg_positions fw) =
      map (\<lambda>p. deref (st_heap s) (column (st_working_block s ! p))) (arg_positions fw)"
    by (auto simp: list_all_iff nth_load_block)
  show ?thesis
    using True
    by (auto simp: execute_def invoke_def store_execute_def columns_def Let_def args
        alloc_def load_set_fresh [OF assms] nth_load_block split: sum.splits)
qed

lemma valid_execute:
  assumes "valid (st_heap s) (st_working_block s)" "store_execute fw rows s = Inr s'"
  shows "valid (st_heap s') (st_working_block s')"
proof -
  from assms(2) obtain e c where
    s': "s' = s\<lparr>st_heap := st_heap s @ [c],
                  st_working_block :=
                    (st_working_block s)[result_pos fw :=
                       e\<lparr>column := Some (length (st_heap s))\<rparr>]\<rparr>"
    by (auto simp: store_execute_def alloc_def Let_def split: sum.splits if_splits)
  show ?thesis
    unfolding s' using valid_set_slot [OF valid_append [OF assms(1), of "[c]"]]
    by simp
qed

lemma rows_execute: "store_execute fw rows s = Inr s' \<Longrightarrow> st_rows s' = st_rows s"
  by (auto simp: store_execute_def alloc_def Let_def split: sum.splits if_splits)

lemma sim_execute_all:
  "valid (st_heap s) (st_working_block s) \<Longrightarrow>
     execute_all funcs (load_block (st_heap s) (st_working_block s)) (st_rows s) =
     map_sum id (\<lambda>s'. load_block (st_heap s') (st_working_block s'))
       (store_execute_all funcs s)"
proof (induction funcs arbitrary: s)
  case Nil
  then show ?case by simp
next
  case (Cons func funcs)
  show ?case
  proof (cases "store_execute func (st_rows s) s")
    case (Inl e)
    with sim_execute [OF Cons.prems, of func "st_rows s"] show ?thesis by simp
  next
    case (Inr s')
    with sim_execute [OF Cons.prems, of func "st_rows s"]
      Cons.IH [OF valid_execute [OF Cons.prems Inr]] rows_execute [OF Inr]
    show ?thesis by simp
  qed
qed

lemma valid_execute_all:
  "valid (st_heap s) (st_working_block s) \<Longrightarrow> store_execute_all funcs s = Inr s' \<Longrightarrow>
     valid (st_heap s') (st_working_block s')"
proof (induction funcs arbitrary: s)
  case Nil
  then show ?case by simp
next
  case (Cons func funcs)
  then show ?case
    by (auto split: sum.splits dest: valid_execute)
qed

lemma single_owner:
  assumes "owners_in wb a \<le> 1" "i < length wb" "column (wb ! i) = Some a"
    and "j < length wb" "column (wb ! j) = Some a"
  shows "i = j"
proof (rule ccontr)
  assume ne: "i \<noteq> j"
  let ?S = "{k. k < length wb \<and> column (wb ! k) = Some a}"
  have "{i, j} \<subseteq> ?S" using assms by auto
  moreover have "finite ?S" by simp
  ultimately have "card {i, j} \<le> card ?S" by (rule card_mono [rotated])
  with ne have "2 \<le> card ?S" by simp
  with assms(1) show False
    by (simp add: owners_in_def length_filter_conv_card)
qed

lemma list_update_eqI:
  "length xs = length ys \<Longrightarrow> (\<And>j. j < length ys \<Longrightarrow> j \<noteq> i \<Longrightarrow> xs ! j = ys ! j)
     \<Longrightarrow> xs[i := x] = ys[i := x]"
proof (rule nth_equalityI)
  assume l: "length xs = length ys"
    and r: "\<And>j. j < length ys \<Longrightarrow> j \<noteq> i \<Longrightarrow> xs ! j = ys ! j"
  show "length (xs[i := x]) = length (ys[i := x])" using l by simp
  fix k
  assume "k < length (xs[i := x])"
  then show "xs[i := x] ! k = ys[i := x] ! k"
    using l r [of k] by (cases "k = i") auto
qed

lemma sim_extract_has:
  assumes "valid (st_heap s) (st_working_block s)"
  shows "extract_has (load_block (st_heap s) (st_working_block s))
           (size_t_add (key_position (st_this s)) 1) (st_found s) =
         map_sum id (\<lambda>s'. (st_found s', load_block (st_heap s') (st_working_block s')))
           (store_extract_has s)"
proof -
  let ?hp = "size_t_add (key_position (st_this s)) 1"
  let ?wb = "st_working_block s"
  let ?h = "st_heap s"
  show ?thesis
  proof (cases "getByPosition ?wb ?hp")
    case (Inl e)
    then show ?thesis
      by (simp add: extract_has_def store_extract_has_def getByPosition_load Let_def)
  next
    case (Inr hc)
    then have hp: "?hp < length ?wb" and hc: "hc = ?wb ! ?hp"
      by (auto simp: getByPosition_def split: if_splits)
    show ?thesis
    proof (cases "column hc")
      case None
      with Inr show ?thesis
        by (simp add: extract_has_def store_extract_has_def getByPosition_load Let_def
            deref_def)
    next
      case (Some a)
      have a: "a < length ?h"
        using valid_slot [OF assms hp] Some hc by simp
      show ?thesis
      proof (cases "swap_found (st_found s) (?h ! a)")
        case (Inl e)
        with Inr Some a show ?thesis
          by (simp add: extract_has_def store_extract_has_def getByPosition_load Let_def
              deref_def alloc_def)
      next
        case sw: (Inr p)
        obtain found' dropped where p: "p = (found', dropped)" by (cases p)
        let ?null = "\<lparr>column = None, type = type hc, name = name hc\<rparr>"
        have shared: "load_block (?h @ [dropped]) (?wb[?hp := hc\<lparr>column := None\<rparr>]) =
              (load_block ?h ?wb)[?hp := ?null]"
          by (simp add: load_block_update load_block_append [OF assms] deref_def)
        have own: "load_block (?h[a := dropped]) (?wb[?hp := hc\<lparr>column := None\<rparr>]) =
              (load_block ?h ?wb)[?hp := ?null]" if "\<not> 1 < use_count s a"
        proof -
          from that have o: "owners_in ?wb a \<le> 1" by (simp add: use_count_def)
          have "load_block (?h[a := dropped]) ?wb ! j = load_block ?h ?wb ! j"
            if "j < length ?wb" "j \<noteq> ?hp" for j
          proof -
            have "column (?wb ! j) \<noteq> Some a"
              using single_owner [OF o hp _ that(1)] Some hc that(2) by auto
            then have "deref (?h[a := dropped]) (column (?wb ! j)) = deref ?h (column (?wb ! j))"
              by (cases "column (?wb ! j)") (auto simp: deref_def)
            then show ?thesis using that(1) by (simp add: nth_load_block)
          qed
          then have "(load_block (?h[a := dropped]) ?wb)[?hp := ?null] =
                (load_block ?h ?wb)[?hp := ?null]"
            by (intro list_update_eqI) simp_all
          then show ?thesis
            by (simp add: load_block_update deref_def)
        qed
        show ?thesis
        proof (cases "1 < use_count s a")
          case True
          with Inr Some a sw p shared show ?thesis
            by (simp add: extract_has_def store_extract_has_def getByPosition_load Let_def
                deref_def alloc_def)
        next
          case False
          with Inr Some a sw p own [OF False] show ?thesis
            by (simp add: extract_has_def store_extract_has_def getByPosition_load Let_def
                deref_def alloc_def)
        qed
      qed
    qed
  qed
qed

lemma valid_extract_has:
  assumes "valid (st_heap s) (st_working_block s)" "store_extract_has s = Inr s'"
  shows "valid (st_heap s') (st_working_block s')"
proof -
  let ?hp = "size_t_add (key_position (st_this s)) 1"
  from assms(2) obtain has_column a found' dropped where
    g: "getByPosition (st_working_block s) ?hp = Inr has_column"
    and col: "column has_column = Some a"
    and s': "s' = s\<lparr>st_heap :=
                      (if 1 < use_count s a then st_heap s @ [dropped]
                       else (st_heap s)[a := dropped]),
                    st_found := found',
                    st_working_block :=
                      (st_working_block s)[?hp := has_column\<lparr>column := None\<rparr>]\<rparr>"
    by (auto simp: store_extract_has_def Let_def alloc_def
        split: sum.splits option.splits prod.splits if_splits)
  have "valid (st_heap s') (st_working_block s)"
    using assms(1) by (auto simp: s' valid_def list_all_iff)
  then have "valid (st_heap s') ((st_working_block s)[?hp := has_column\<lparr>column := None\<rparr>])"
    by (rule valid_null_slot)
  then show ?thesis by (simp add: s')
qed

lemma sim_filter_keys:
  assumes "valid (st_heap s) (st_working_block s)"
  shows "filter_keys (load_block (st_heap s) (st_working_block s)) (key_position (st_this s))
           (st_found s) =
         map_sum id (\<lambda>s'. (load_block (st_heap s') (st_working_block s'), st_rows s'))
           (store_filter_keys s)"
  using assms
  by (auto simp: filter_keys_def store_filter_keys_def getByPosition_load alloc_def
      load_set_fresh split: sum.splits option.splits)

lemma valid_filter_keys:
  assumes "valid (st_heap s) (st_working_block s)" "store_filter_keys s = Inr s'"
  shows "valid (st_heap s') (st_working_block s')"
proof -
  from assms(2) obtain e c where
    s': "s' = s\<lparr>st_heap := st_heap s @ [c],
                  st_working_block :=
                    (st_working_block s)[key_position (st_this s) :=
                       e\<lparr>column := Some (length (st_heap s))\<rparr>],
                  st_rows := size_col c\<rparr>"
    by (auto simp: store_filter_keys_def alloc_def split: sum.splits option.splits)
  show ?thesis
    unfolding s' using valid_set_slot [OF valid_append [OF assms(1), of "[c]"]]
    by simp
qed

lemma sim_cloneEmpty:
  "valid h block \<Longrightarrow> store_cloneEmpty h block = (h', block') \<Longrightarrow>
     (\<exists>ext. h' = h @ ext) \<and> load_block h' block' = cloneEmpty (load_block h block)"
proof (induction block arbitrary: h h' block')
  case Nil
  then show ?case by (simp add: load_block_def cloneEmpty_def)
next
  case (Cons elem block)
  from Cons.prems(1) have vb: "valid h block"
    by (simp add: valid_def pointers_def)
  show ?case
  proof (cases "deref h (column elem)")
    case None
    with Cons.prems(2) obtain b where
      r: "store_cloneEmpty h block = (h', b)" and b: "block' = elem\<lparr>column := None\<rparr> # b"
      by (auto split: prod.splits)
    from Cons.IH [OF vb r] None b show ?thesis
      by (auto simp: load_block_def cloneEmpty_def deref_def)
  next
    case (Some c)
    let ?h1 = "h @ [cloneResized c 0]"
    from Some Cons.prems(2) obtain b where
      r: "store_cloneEmpty ?h1 block = (h', b)"
      and b: "block' = elem\<lparr>column := Some (length h)\<rparr> # b"
      by (auto simp: alloc_def split: prod.splits)
    from Cons.IH [OF valid_append [OF vb] r] obtain ext where
      h': "h' = ?h1 @ ext" and l: "load_block h' b = cloneEmpty (load_block ?h1 block)"
      by blast
    have "load_block ?h1 block = load_block h block"
      by (rule load_block_append [OF vb])
    with Some b h' l show ?thesis
      by (auto simp: load_block_def cloneEmpty_def deref_def nth_append)
  qed
qed

lemma sim_move_columns:
  "move_columns is first (load_block h wb) (load_block h ob) =
     map_sum id (\<lambda>r. (load_block h (fst r), load_block h (snd r)))
       (move_columns is first wb ob)"
proof (induction "is" arbitrary: wb ob)
  case Nil
  then show ?case by simp
next
  case (Cons i rest)
  show ?case
  proof (cases "getByPosition wb (size_t_add first i)")
    case (Inl e)
    then show ?thesis by (simp add: getByPosition_load)
  next
    case src: (Inr src)
    show ?thesis
    proof (cases "getByPosition ob i")
      case (Inl e)
      with src show ?thesis by (simp add: getByPosition_load)
    next
      case dst: (Inr dst)
      from src dst Cons.IH [of "wb[size_t_add first i := src\<lparr>column := None\<rparr>]"
          "ob[i := dst\<lparr>column := column src\<rparr>]"]
      show ?thesis
        by (simp add: getByPosition_load load_block_update deref_def)
    qed
  qed
qed

lemma columns_load_block: "columns (load_block h block) = columns block"
  by (simp add: columns_def)

lemma columns_cloneEmpty: "columns (cloneEmpty block) = columns block"
  by (simp add: columns_def cloneEmpty_def)

lemma sim_make_result:
  assumes "valid (st_heap s) (st_working_block s)"
    and "valid (st_heap s) (result_header (st_this s))"
  shows "(case move_columns
                 [0 ..< columns (cloneEmpty (load_block (st_heap s) (result_header (st_this s))))]
                 (size_t_add (size_t_add (key_position (st_this s)) 1) 1)
                 (load_block (st_heap s) (st_working_block s))
                 (cloneEmpty (load_block (st_heap s) (result_header (st_this s)))) of
            Inl e \<Rightarrow> Inl e
          | Inr (working_block6, out_block'') \<Rightarrow> Inr out_block'') =
         map_sum id (\<lambda>s'. load_block (st_heap s') (st_out_block s')) (store_make_result s)"
proof -
  obtain h ob where c: "store_cloneEmpty (st_heap s) (result_header (st_this s)) = (h, ob)"
    by (cases "store_cloneEmpty (st_heap s) (result_header (st_this s))")
  from sim_cloneEmpty [OF assms(2) c] obtain ext where
    h: "h = st_heap s @ ext"
    and l: "load_block h ob = cloneEmpty (load_block (st_heap s) (result_header (st_this s)))"
    by blast
  have n: "columns (cloneEmpty (load_block (st_heap s) (result_header (st_this s)))) = columns ob"
    using columns_load_block [of h ob] by (simp add: l)
  have w: "load_block (st_heap s) (st_working_block s) = load_block h (st_working_block s)"
    unfolding h by (rule load_block_append [OF assms(1), symmetric])
  let ?first = "size_t_add (size_t_add (key_position (st_this s)) 1) 1"
  have m: "move_columns [0 ..< columns ob] ?first (load_block (st_heap s) (st_working_block s))
             (cloneEmpty (load_block (st_heap s) (result_header (st_this s)))) =
           map_sum id (\<lambda>r. (load_block h (fst r), load_block h (snd r)))
             (move_columns [0 ..< columns ob] ?first (st_working_block s) ob)"
    unfolding w l [symmetric] by (rule sim_move_columns)
  show ?thesis
    unfolding n m
    by (cases "move_columns [0 ..< columns ob] ?first (st_working_block s) ob")
       (auto simp: store_make_result_def c Let_def)
qed

lemma kept_load:
  assumes "sound s0" "kept s0 s" "set (pointers block) \<subseteq> set (roots s0)"
  shows "load_block (st_heap s) block = load_block (st_heap s0) block"
    and "valid (st_heap s) block"
proof -
  have r: "a < length (st_heap s0) \<and> a < length (st_heap s) \<and> st_heap s ! a = st_heap s0 ! a"
    if "a \<in> set (pointers block)" for a
  proof -
    from that assms(3) have ar: "a \<in> set (roots s0)" by blast
    with assms(1) have "a < length (st_heap s0)" by (simp add: sound_def list_all_iff)
    moreover from assms(2) have "length (st_heap s0) \<le> length (st_heap s)"
      by (simp add: kept_def)
    moreover from assms(2) ar have "st_heap s ! a = st_heap s0 ! a"
      by (simp add: kept_def list_all_iff)
    ultimately show ?thesis by simp
  qed
  then show "valid (st_heap s) block"
    by (simp add: valid_def list_all_iff)
  show "load_block (st_heap s) block = load_block (st_heap s0) block"
  proof (rule load_block_cong)
    fix i
    assume i: "i < length block"
    show "deref (st_heap s) (column (block ! i)) = deref (st_heap s0) (column (block ! i))"
    proof (cases "column (block ! i)")
      case None
      then show ?thesis by (simp add: deref_def)
    next
      case (Some a)
      with r [of a] slot_pointer [of i block a] i show ?thesis
        by (simp add: deref_def)
    qed
  qed
qed

lemma kept_keys:
  assumes "sound s0" "kept s0 s"
  shows "st_keys s < length (st_heap s)" "st_heap s ! st_keys s = st_heap s0 ! st_keys s0"
proof -
  have ar: "st_keys s0 \<in> set (roots s0)" by (simp add: roots_def)
  with assms(1) have "st_keys s0 < length (st_heap s0)" by (simp add: sound_def list_all_iff)
  moreover from assms(2) have "length (st_heap s0) \<le> length (st_heap s)"
    and k: "st_keys s = st_keys s0"
    by (simp_all add: kept_def)
  ultimately show "st_keys s < length (st_heap s)" by simp
  from assms(2) ar have "st_heap s ! st_keys s0 = st_heap s0 ! st_keys s0"
    by (simp add: kept_def list_all_iff)
  with k show "st_heap s ! st_keys s = st_heap s0 ! st_keys s0" by simp
qed

lemma then_step_error [simp]: "then_step (s, Some e) step = (s, Some e)"
  by (simp add: then_step_def)

lemma then_step_Inl: "step s = Inl e \<Longrightarrow> then_step (s, None) step = (s, Some e)"
  by (simp add: then_step_def)

lemma then_step_Inr: "step s = Inr s' \<Longrightarrow> then_step (s, None) step = (s', None)"
  by (simp add: then_step_def)

lemma vectors_set_keys:
  "store_set_keys n s = Inr s' \<Longrightarrow> st_found s' = st_found s \<and> st_positions s' = st_positions s"
  by (auto simp: store_set_keys_def alloc_def split: sum.splits option.splits)

lemma vectors_execute:
  "store_execute fw rows s = Inr s' \<Longrightarrow>
     st_found s' = st_found s \<and> st_positions s' = st_positions s"
  by (auto simp: store_execute_def alloc_def Let_def split: sum.splits if_splits)

lemma vectors_execute_all:
  "store_execute_all funcs s = Inr s' \<Longrightarrow>
     st_found s' = st_found s \<and> st_positions s' = st_positions s"
proof (induction funcs arbitrary: s)
  case Nil
  then show ?case by simp
next
  case (Cons func funcs)
  then show ?case
    by (auto split: sum.splits dest: vectors_execute)
qed

lemma vectors_filter_keys:
  "store_filter_keys s = Inr s' \<Longrightarrow> st_found s' = st_found s \<and> st_positions s' = st_positions s"
  by (auto simp: store_filter_keys_def alloc_def split: sum.splits option.splits)

lemma vectors_make_result:
  "store_make_result s = Inr s' \<Longrightarrow> st_found s' = st_found s \<and> st_positions s' = st_positions s"
  by (auto simp: store_make_result_def Let_def split: sum.splits prod.splits)

lemma vectors_extract_has:
  "store_extract_has s = Inr s' \<Longrightarrow> st_positions s' = st_positions s"
  by (auto simp: store_extract_has_def Let_def split: sum.splits option.splits prod.splits)

lemma readKeys_store_refines:
  assumes "sound s"
  shows "readKeys (load_reader (st_heap s) (st_this s)) (st_heap s ! st_keys s) n
           (out_block, st_found s, st_positions s) =
         (case readKeys_store s n of
            (s', Some e) \<Rightarrow> Inl e
          | (s', None) \<Rightarrow>
              Inr (load_block (st_heap s') (st_out_block s'), st_found s', st_positions s'))"
proof -
  let ?rd = "st_this s"
  let ?L = "\<lambda>s'. load_block (st_heap s') (st_working_block s')"
  note defs = readKeys_def load_reader_def readKeys_store_def Let_def
  define s1 where "s1 = s\<lparr>st_working_block := sample_block ?rd\<rparr>"
  have t1: "then_step (s, None) copy_sample_block = (s1, None)"
    by (simp add: then_step_def copy_sample_block_def s1_def)
  have k1: "kept s s1"
    using kept_init [of s] by (simp add: t1)
  have v1: "valid (st_heap s1) (st_working_block s1)"
    using kept_load(2) [OF assms k1, of "sample_block ?rd"]
    by (auto simp: s1_def roots_def)
  have this_kept: "st_this s' = ?rd" if "kept s s'" for s'
    using that by (simp add: kept_def)
  have sim2: "set_keys (load_block (st_heap s) (sample_block ?rd)) (key_position ?rd)
                (st_heap s ! st_keys s) n = map_sum id ?L (store_set_keys n s1)"
    using sim_set_keys [OF v1 kept_keys(1) [OF assms k1], of n]
    by (simp add: s1_def)
  show ?thesis
  proof (cases "store_set_keys n s1")
    case (Inl e)
    have t2: "then_step (s1, None) (store_set_keys n) = (s1, Some e)"
      by (simp add: then_step_def Inl)
    from sim2 show ?thesis
      by (simp add: defs t1 t2 Inl del: One_nat_def)
  next
    case s2: (Inr s2)
    have t2: "then_step (s1, None) (store_set_keys n) = (s2, None)"
      by (simp add: then_step_def s2)
    have e2: "set_keys (load_block (st_heap s) (sample_block ?rd)) (key_position ?rd)
                (st_heap s ! st_keys s) n = Inr (?L s2)"
      using sim2 by (simp add: s2)
    have k2: "kept s s2" by (rule kept_set_keys [OF assms k1 s2])
    have v2: "valid (st_heap s2) (st_working_block s2)" by (rule valid_set_keys [OF v1 s2])
    have f2: "st_found s2 = st_found s"
      using vectors_set_keys [OF s2] by (simp add: s1_def)
    have sim3: "execute (function_has ?rd) (?L s2) n =
                map_sum id ?L (store_execute (function_has ?rd) n s2)"
      by (rule sim_execute [OF v2])
    show ?thesis
    proof (cases "store_execute (function_has ?rd) n s2")
      case (Inl e)
      have t3: "then_step (s2, None) (store_execute (function_has ?rd) n) = (s2, Some e)"
        by (simp add: then_step_def Inl)
      from sim3 show ?thesis
        by (simp add: defs t1 t2 t3 e2 Inl del: One_nat_def)
    next
      case s3: (Inr s3)
      have t3: "then_step (s2, None) (store_execute (function_has ?rd) n) = (s3, None)"
        by (simp add: then_step_def s3)
      have e3: "execute (function_has ?rd) (?L s2) n = Inr (?L s3)"
        using sim3 by (simp add: s3)
      have k3: "kept s s3" by (rule kept_execute [OF assms k2 s3])
      have v3: "valid (st_heap s3) (st_working_block s3)" by (rule valid_execute [OF v2 s3])
      have f3: "st_found s3 = st_found s"
        using vectors_execute [OF s3] f2 by simp
      have sim4: "extract_has (?L s3) (size_t_add (key_position ?rd) 1) (st_found s) =
                  map_sum id (\<lambda>s'. (st_found s', ?L s')) (store_extract_has s3)"
        using sim_extract_has [OF v3] by (simp add: this_kept [OF k3] f3 del: One_nat_def)
      show ?thesis
      proof (cases "store_extract_has s3")
        case (Inl e)
        have t4: "then_step (s3, None) store_extract_has = (s3, Some e)"
          by (simp add: then_step_def Inl)
        from sim4 show ?thesis
          by (simp add: defs t1 t2 t3 t4 e2 e3 Inl del: One_nat_def)
      next
        case s4: (Inr s4)
        have t4: "then_step (s3, None) store_extract_has = (s4, None)"
          by (simp add: then_step_def s4)
        have e4: "extract_has (?L s3) (size_t_add (key_position ?rd) 1) (st_found s) =
                  Inr (st_found s4, ?L s4)"
          using sim4 by (simp add: s4)
        have k4: "kept s s4" by (rule kept_extract_has [OF assms k3 s4])
        have v4: "valid (st_heap s4) (st_working_block s4)"
          by (rule valid_extract_has [OF v3 s4])
        have sim5: "make_positions (st_positions s) (st_found s4) n =
                    make_positions (st_positions s4) (st_found s4) n"
          by (simp add: make_positions_def)
        show ?thesis
        proof (cases "make_positions (st_positions s4) (st_found s4) n")
          case (Inl e)
          have t5: "then_step (s4, None) (store_positions n) = (s4, Some e)"
            by (simp add: then_step_def store_positions_def Inl)
          from sim5 show ?thesis
            by (simp add: defs t1 t2 t3 t4 t5 e2 e3 e4 Inl del: One_nat_def)
        next
          case p: (Inr positions')
          define s5 where "s5 = s4\<lparr>st_positions := positions'\<rparr>"
          have s5: "store_positions n s4 = Inr s5"
            by (simp add: store_positions_def p s5_def)
          have t5: "then_step (s4, None) (store_positions n) = (s5, None)"
            by (simp add: then_step_def s5)
          have e5: "make_positions (st_positions s) (st_found s4) n = Inr positions'"
            using sim5 p by simp
          have k5: "kept s s5" by (rule kept_positions [OF k4 s5])
          have v5: "valid (st_heap s5) (st_working_block s5)"
            using v4 by (simp add: s5_def)
          have sim6: "filter_keys (?L s4) (key_position ?rd) (st_found s4) =
                      map_sum id (\<lambda>s'. (?L s', st_rows s')) (store_filter_keys s5)"
            using sim_filter_keys [OF v5] this_kept [OF k4] by (simp add: s5_def)
          show ?thesis
          proof (cases "store_filter_keys s5")
            case (Inl e)
            have t6: "then_step (s5, None) store_filter_keys = (s5, Some e)"
              by (simp add: then_step_def Inl)
            from sim6 show ?thesis
              by (simp add: defs t1 t2 t3 t4 t5 t6 e2 e3 e4 e5 Inl del: One_nat_def)
          next
            case s6: (Inr s6)
            have t6: "then_step (s5, None) store_filter_keys = (s6, None)"
              by (simp add: then_step_def s6)
            have e6: "filter_keys (?L s4) (key_position ?rd) (st_found s4) =
                      Inr (?L s6, st_rows s6)"
              using sim6 by (simp add: s6)
            have k6: "kept s s6" by (rule kept_filter_keys [OF assms k5 s6])
            have v6: "valid (st_heap s6) (st_working_block s6)"
              by (rule valid_filter_keys [OF v5 s6])
            have w6: "st_found s6 = st_found s4" "st_positions s6 = positions'"
              using vectors_filter_keys [OF s6] by (simp_all add: s5_def)
            have sim7: "execute_all (functions_get ?rd) (?L s6) (st_rows s6) =
                        map_sum id ?L (store_execute_all (functions_get (st_this s6)) s6)"
              using sim_execute_all [OF v6, of "functions_get ?rd"]
              by (simp add: this_kept [OF k6])
            show ?thesis
            proof (cases "store_execute_all (functions_get (st_this s6)) s6")
              case (Inl e)
              have t7: "then_step (s6, None)
                          (\<lambda>s'. store_execute_all (functions_get (st_this s')) s') =
                        (s6, Some e)"
                by (simp add: then_step_def Inl)
              from sim7 show ?thesis
                by (simp add: defs t1 t2 t3 t4 t5 t6 t7 e2 e3 e4 e5 e6 Inl del: One_nat_def)
            next
              case s7: (Inr s7)
              have t7: "then_step (s6, None)
                          (\<lambda>s'. store_execute_all (functions_get (st_this s')) s') =
                        (s7, None)"
                by (simp add: then_step_def s7)
              have e7: "execute_all (functions_get ?rd) (?L s6) (st_rows s6) = Inr (?L s7)"
                using sim7 by (simp add: s7)
              have s7': "store_execute_all (functions_get ?rd) s6 = Inr s7"
                using s7 by (simp add: this_kept [OF k6])
              have k7: "kept s s7" by (rule kept_execute_all [OF assms k6 s7'])
              have v7: "valid (st_heap s7) (st_working_block s7)"
                by (rule valid_execute_all [OF v6 s7'])
              have w7: "st_found s7 = st_found s4" "st_positions s7 = positions'"
                using vectors_execute_all [OF s7'] w6 by simp_all
              have hdr: "set (pointers (result_header ?rd)) \<subseteq> set (roots s)"
                by (auto simp: roots_def)
              have h7: "load_block (st_heap s7) (result_header ?rd) =
                        load_block (st_heap s) (result_header ?rd)"
                by (rule kept_load(1) [OF assms k7 hdr])
              have vh7: "valid (st_heap s7) (result_header (st_this s7))"
                using kept_load(2) [OF assms k7 hdr] by (simp add: this_kept [OF k7])
              note sim8 = sim_make_result [OF v7 vh7, unfolded this_kept [OF k7] h7]
              show ?thesis
              proof (cases "store_make_result s7")
                case (Inl e)
                have t8: "then_step (s7, None) store_make_result = (s7, Some e)"
                  by (simp add: then_step_def Inl)
                from sim8 show ?thesis
                  by (auto simp add: defs t1 t2 t3 t4 t5 t6 t7 t8 e2 e3 e4 e5 e6 e7 Inl
                      split: sum.splits prod.splits simp del: One_nat_def)
              next
                case s8: (Inr s8)
                have t8: "then_step (s7, None) store_make_result = (s8, None)"
                  by (simp add: then_step_def s8)
                have w8: "st_found s8 = st_found s4" "st_positions s8 = positions'"
                  using vectors_make_result [OF s8] w7 by simp_all
                from sim8 show ?thesis
                  by (auto simp add: defs t1 t2 t3 t4 t5 t6 t7 t8 e2 e3 e4 e5 e6 e7 s8 w8
                      split: sum.splits prod.splits simp del: One_nat_def)
              qed
            qed
          qed
        qed
      qed
    qed
  qed
qed

lemma load_store_block:
  "store_block h block = (h', block') \<Longrightarrow>
     (\<exists>ext. h' = h @ ext) \<and> valid h' block' \<and> load_block h' block' = block"
proof (induction block arbitrary: h h' block')
  case Nil
  then show ?case by (simp add: valid_def pointers_def load_block_def)
next
  case (Cons elem block)
  show ?case
  proof (cases "column elem")
    case None
    with Cons.prems obtain b where
      r: "store_block h block = (h', b)"
      and b: "block' = \<lparr>column = None, type = type elem, name = name elem\<rparr> # b"
      by (auto split: prod.splits)
    from Cons.IH [OF r] None b show ?thesis
      by (auto simp: valid_def pointers_def load_block_def deref_def)
  next
    case (Some c)
    with Cons.prems obtain b where
      r: "store_block (h @ [c]) block = (h', b)"
      and b: "block' = \<lparr>column = Some (length h), type = type elem, name = name elem\<rparr> # b"
      by (auto simp: alloc_def split: prod.splits)
    from Cons.IH [OF r] obtain ext where
      h': "h' = (h @ [c]) @ ext" and v: "valid h' b" and l: "load_block h' b = block"
      by blast
    from h' v l Some b show ?thesis
      by (auto simp: valid_def pointers_def load_block_def deref_def nth_append)
  qed
qed

lemma load_call_of:
  "load_reader (st_heap (call_of reader keys)) (st_this (call_of reader keys)) = reader"
  "st_heap (call_of reader keys) ! st_keys (call_of reader keys) = keys"
  "st_found (call_of reader keys) = []"
  "st_positions (call_of reader keys) = []"
  "st_out_block (call_of reader keys) = []"
proof -
  obtain h1 header where 1: "store_block [] (result_header reader) = (h1, header)"
    by (cases "store_block [] (result_header reader)")
  obtain h2 sample where 2: "store_block h1 (sample_block reader) = (h2, sample)"
    by (cases "store_block h1 (sample_block reader)")
  from load_store_block [OF 1] have v1: "valid h1 header"
    and l1: "load_block h1 header = result_header reader"
    by simp_all
  from load_store_block [OF 2] obtain ext where h2: "h2 = h1 @ ext"
    and v2: "valid h2 sample" and l2: "load_block h2 sample = sample_block reader"
    by blast
  have "load_block (h2 @ [keys]) header = result_header reader"
    using load_block_append [OF v1, of "ext @ [keys]"] l1 by (simp add: h2)
  moreover have "load_block (h2 @ [keys]) sample = sample_block reader"
    using load_block_append [OF v2, of "[keys]"] l2 by simp
  ultimately show
    "load_reader (st_heap (call_of reader keys)) (st_this (call_of reader keys)) = reader"
    by (simp add: call_of_def store_reader_def 1 2 alloc_def load_reader_def)
  show "st_heap (call_of reader keys) ! st_keys (call_of reader keys) = keys"
    "st_found (call_of reader keys) = []"
    "st_positions (call_of reader keys) = []"
    "st_out_block (call_of reader keys) = []"
    by (simp_all add: call_of_def store_reader_def 1 2 alloc_def)
qed

lemma readKeys_call_of:
  "readKeys reader keys n (out_block, [], []) =
     (case readKeys_store (call_of reader keys) n of
        (s', Some e) \<Rightarrow> Inl e
      | (s', None) \<Rightarrow>
          Inr (load_block (st_heap s') (st_out_block s'), st_found s', st_positions s'))"
  using readKeys_store_refines [OF sound_call_of, of reader keys n out_block]
  by (simp add: load_call_of)

subsection \<open>What a call leaves alone\<close>

text \<open>
  C8. \<^verbatim>\<open>readKeys\<close> on a call state whose reader and key column exist, whether it returns
  or throws. Its outcome is the outcome of \<^verbatim>\<open>readKeys\<close> on the columns that the pointers
  of the state hold. The reader is the same and the caller's key reference is the same;
  every object that the reader's sample block, its result header or the key reference
  points to holds what it held before the call; no object is removed; the working block
  has the names and types of the sample block, column for column. When the key position
  is a column of the sample block, the first object the call makes is the copy of the
  caller's keys resized to \<open>n\<close> rows. (The has and get functions are functions from the
  objects their arguments point to to a new object.)
\<close>

theorem readKeys_changes_only_its_own_objects:
  assumes "sound s"
  shows "readKeys (load_reader (st_heap s) (st_this s)) (st_heap s ! st_keys s) n
           (load_block (st_heap s) (st_out_block s), st_found s, st_positions s) =
         (case readKeys_store s n of
            (s', Some e) \<Rightarrow> Inl e
          | (s', None) \<Rightarrow>
              Inr (load_block (st_heap s') (st_out_block s'), st_found s', st_positions s'))
     \<and> st_this (fst (readKeys_store s n)) = st_this s
     \<and> st_keys (fst (readKeys_store s n)) = st_keys s
     \<and> list_all (\<lambda>a. st_heap (fst (readKeys_store s n)) ! a = st_heap s ! a) (roots s)
     \<and> length (st_heap s) \<le> length (st_heap (fst (readKeys_store s n)))
     \<and> map (\<lambda>e. (name e, type e)) (st_working_block (fst (readKeys_store s n))) =
         map (\<lambda>e. (name e, type e)) (sample_block (st_this s))
     \<and> (key_position (st_this s) < columns (sample_block (st_this s)) \<longrightarrow>
          length (st_heap s) < length (st_heap (fst (readKeys_store s n)))
          \<and> st_heap (fst (readKeys_store s n)) ! length (st_heap s) =
              cloneResized (st_heap s ! st_keys s) n)"
proof -
  have outcome:
    "readKeys (load_reader (st_heap s) (st_this s)) (st_heap s ! st_keys s) n
       (load_block (st_heap s) (st_out_block s), st_found s, st_positions s) =
     (case readKeys_store s n of
        (s', Some e) \<Rightarrow> Inl e
      | (s', None) \<Rightarrow>
          Inr (load_block (st_heap s') (st_out_block s'), st_found s', st_positions s'))"
    by (rule readKeys_store_refines [OF assms])
  have frame:
    "st_this (fst (readKeys_store s n)) = st_this s
     \<and> st_keys (fst (readKeys_store s n)) = st_keys s
     \<and> list_all (\<lambda>a. st_heap (fst (readKeys_store s n)) ! a = st_heap s ! a) (roots s)
     \<and> length (st_heap s) \<le> length (st_heap (fst (readKeys_store s n)))
     \<and> map (\<lambda>e. (name e, type e)) (st_working_block (fst (readKeys_store s n))) =
         map (\<lambda>e. (name e, type e)) (sample_block (st_this s))
     \<and> (key_position (st_this s) < columns (sample_block (st_this s)) \<longrightarrow>
          length (st_heap s) < length (st_heap (fst (readKeys_store s n)))
          \<and> st_heap (fst (readKeys_store s n)) ! length (st_heap s) =
              cloneResized (st_heap s ! st_keys s) n)"
    using kept_readKeys_store [OF assms, of n] readKeys_store_installs [OF assms, of n]
    by (auto simp: kept_def installed_def)
  from outcome frame show ?thesis by (rule conjI)
qed

theorem readKeys_changes_only_its_own_objects_witness:
  "map_sum id
     (\<lambda>this. (sound (call_of this (ColumnUInt64 [10, 11, 12])),
               st_heap (call_of this (ColumnUInt64 [10, 11, 12])),
               map column (sample_block (st_this (call_of this (ColumnUInt64 [10, 11, 12])))),
               st_heap (fst (readKeys_store (call_of this (ColumnUInt64 [10, 11, 12])) 5)),
               map column
                 (st_working_block
                    (fst (readKeys_store (call_of this (ColumnUInt64 [10, 11, 12])) 5)))))
     (DictionaryReader_new ''d'' [''name''] [(''name'', DataTypeString)] example_context 1) =
   Inr (True,
        [ColumnConst 1 (FieldString ''d''), ColumnConst 1 (FieldString ''name''),
         ColumnUInt64 [10, 11, 12]],
        [Some 0, Some 1, None],
        [ColumnConst 1 (FieldString ''d''), ColumnConst 1 (FieldString ''name''),
         ColumnUInt64 [10, 11, 12], ColumnUInt64 [10, 11, 12, 0, 0]],
        [Some 0, Some 1, Some 3])"
proof -
  from example_reader_one obtain this where
    t: "DictionaryReader_new ''d'' [''name''] [(''name'', DataTypeString)] example_context 1 =
          Inr this"
    by blast
  note c = constructed_reader [OF t]
  let ?s = "call_of this (ColumnUInt64 [10, 11, 12])"
  let ?sample = "[\<lparr>column = Some 0, type = DataTypeString, name = ''dict''\<rparr>,
                  \<lparr>column = Some 1, type = DataTypeString, name = ''col_name''\<rparr>,
                  \<lparr>column = None, type = DataTypeUInt64, name = ''key''\<rparr>]"
  let ?h = "[ColumnConst 1 (FieldString ''d''), ColumnConst 1 (FieldString ''name''),
             ColumnUInt64 [10, 11, 12]]"
  have s: "?s = \<lparr>st_heap = ?h,
      st_this = \<lparr>result_header = [\<lparr>column = None, type = DataTypeString, name = ''name''\<rparr>],
                  sample_block = ?sample,
                  key_position = 2, function_has = function_has this,
                  functions_get = functions_get this\<rparr>,
      st_keys = 2, st_out_block = [], st_found = [], st_positions = [],
      st_working_block = [], st_rows = 0\<rparr>"
    using c(2,3,4)
    by (simp add: call_of_def store_reader_def alloc_def make_sample_block_eq
        makeResultBlock_map dict_name_arg_def key_arg_def size_t_add_def)
  have snd: "sound ?s" by (rule sound_call_of)
  note inst = readKeys_changes_only_its_own_objects [OF snd, of 5]
  have wb: "st_working_block (fst (readKeys_store ?s 5)) =
      ?sample[2 := (?sample ! 2)\<lparr>column := Some 3\<rparr>]"
    and len: "length (st_heap (fst (readKeys_store ?s 5))) = 4"
    using c(5)
    by (simp_all add: s readKeys_store_def then_step_def copy_sample_block_def
        store_set_keys_def getByPosition_def deref_def alloc_def store_execute_def
        columns_def Let_def)
  have cells: "st_heap (fst (readKeys_store ?s 5)) ! 0 = ?h ! 0"
    "st_heap (fst (readKeys_store ?s 5)) ! 1 = ?h ! 1"
    "st_heap (fst (readKeys_store ?s 5)) ! 2 = ?h ! 2"
    "st_heap (fst (readKeys_store ?s 5)) ! 3 = cloneResized (?h ! 2) 5"
  proof -
    have r: "roots ?s = [2, 0, 1]"
      by (simp add: s roots_def pointers_def)
    have h0: "st_heap ?s = ?h" and k: "st_keys ?s = 2"
      and kp: "key_position (st_this ?s) < columns (sample_block (st_this ?s))"
      by (simp_all add: s columns_def)
    from inst have "list_all (\<lambda>a. st_heap (fst (readKeys_store ?s 5)) ! a = st_heap ?s ! a)
        (roots ?s)"
      by blast
    then show "st_heap (fst (readKeys_store ?s 5)) ! 0 = ?h ! 0"
      "st_heap (fst (readKeys_store ?s 5)) ! 1 = ?h ! 1"
      "st_heap (fst (readKeys_store ?s 5)) ! 2 = ?h ! 2"
      unfolding r h0 by simp_all
    from inst kp have "st_heap (fst (readKeys_store ?s 5)) ! length (st_heap ?s) =
        cloneResized (st_heap ?s ! st_keys ?s) 5"
      by blast
    then show "st_heap (fst (readKeys_store ?s 5)) ! 3 = cloneResized (?h ! 2) 5"
      unfolding h0 k by (simp add: numeral_3_eq_3)
  qed
  have heap: "st_heap (fst (readKeys_store ?s 5)) =
      [ColumnConst 1 (FieldString ''d''), ColumnConst 1 (FieldString ''name''),
       ColumnUInt64 [10, 11, 12], ColumnUInt64 [10, 11, 12, 0, 0]]"
    using len cells
    by (simp add: list_eq_iff_nth_eq less_Suc_eq numeral_eq_Suc resize_def)
  show ?thesis
    unfolding t by (simp add: snd heap wb) (simp add: s)
qed

subsection \<open>Determinism\<close>

lemma extract_has_old_found:
  "extract_has working_block has_position found = extract_has working_block has_position found'"
proof (cases "getByPosition working_block has_position")
  case (Inl e)
  then show ?thesis by (simp add: extract_has_def)
next
  case (Inr has_column)
  show ?thesis
  proof (cases "column has_column")
    case None
    with Inr show ?thesis by (simp add: extract_has_def)
  next
    case (Some mutable_has)
    with Inr show ?thesis by (cases mutable_has) (simp_all add: extract_has_def)
  qed
qed

text \<open>
  C9. The outcome of \<^verbatim>\<open>readKeys\<close> (an output block, a found mask and a position map, or a
  failure) depends on the reader, the keys and the size only: whatever the three
  references hold when it is called, the first time or after an earlier call, the outcome
  is the same. The has and get functions are functions of their arguments.
\<close>

theorem readKeys_deterministic:
  "readKeys this keys n (out_block, found, positions) =
   readKeys this keys n (out_block', found', positions')"
proof -
  have e: "extract_has working_block has_position found =
      extract_has working_block has_position found'" for working_block has_position
    by (rule extract_has_old_found)
  have m: "make_positions positions = make_positions positions'"
    by (simp add: fun_eq_iff make_positions_def)
  show ?thesis
    unfolding readKeys_def prod.case e m ..
qed

end
